theory Spec2Isabelle
  imports Main "HOL-Library.Word" "HOL-Library.Signed_Division"
begin

section \<open>Persistent storage (Preferences) and the note store\<close>

text \<open>
  The firmware keeps its notes in one Preferences namespace: an integer under the key
  \<^verbatim>\<open>notes_cnt\<close> and one string per slot under the key \<^verbatim>\<open>note<idx>\<close>. The
  namespace is a finite map from key strings to typed values; a typed getter answers its
  default when the key is absent or holds a value of the other type.

  The \<^verbatim>\<open>int\<close> values of the note store are modelled as \<^typ>\<open>int\<close>: the only arithmetic
  on them is \<^verbatim>\<open>n+1\<close> under the guard \<^verbatim>\<open>n < MAX_NOTES\<close>, \<^verbatim>\<open>n-1\<close> under the guard
  \<^verbatim>\<open>0 <= idx < n\<close> and \<^verbatim>\<open>i+1\<close> under \<^verbatim>\<open>i < n-1\<close>, none of which can leave the 32-bit
  range.
\<close>

datatype pval = IntV int | StrV string

type_synonym preferences = "string \<rightharpoonup> pval"

definition getInt :: "string \<Rightarrow> int \<Rightarrow> preferences \<Rightarrow> int" where
  "getInt key dflt p = (case p key of Some (IntV n) \<Rightarrow> n | _ \<Rightarrow> dflt)"

definition putInt :: "string \<Rightarrow> int \<Rightarrow> preferences \<Rightarrow> preferences" where
  "putInt key n p = p(key \<mapsto> IntV n)"

definition getString :: "string \<Rightarrow> string \<Rightarrow> preferences \<Rightarrow> string" where
  "getString key dflt p = (case p key of Some (StrV s) \<Rightarrow> s | _ \<Rightarrow> dflt)"

definition putString :: "string \<Rightarrow> string \<Rightarrow> preferences \<Rightarrow> preferences" where
  "putString key s p = p(key \<mapsto> StrV s)"

definition isKey :: "string \<Rightarrow> preferences \<Rightarrow> bool" where
  "isKey key p = (p key \<noteq> None)"

definition remove_key :: "string \<Rightarrow> preferences \<Rightarrow> preferences" where
  "remove_key key p = p(key := None)"

definition MAX_NOTES :: int where
  "MAX_NOTES = 16"

definition NOTES_COUNT_KEY :: string where
  "NOTES_COUNT_KEY = ''notes_cnt''"

text \<open>
  Decimal rendering, as \<^verbatim>\<open>%d\<close> of \<^verbatim>\<open>snprintf\<close> and \<^verbatim>\<open>String(int)\<close> produce it. A 32-bit
  value renders to at most 11 characters, so \<^verbatim>\<open>note%d\<close> always fits the 16-byte key
  buffer and \<^verbatim>\<open>snprintf\<close> never truncates it.
\<close>

definition digit_char :: "nat \<Rightarrow> char" where
  "digit_char d = char_of (48 + d)"

function dec_nat :: "nat \<Rightarrow> string" where
  "dec_nat n = (if n < 10 then [digit_char n] else dec_nat (n div 10) @ [digit_char (n mod 10)])"
  by pat_completeness auto
termination
  by (relation "measure (\<lambda>n. n)") auto

declare dec_nat.simps [simp del]

definition dec_int :: "int \<Rightarrow> string" where
  "dec_int i = (if i < 0 then CHR ''-'' # dec_nat (nat (- i)) else dec_nat (nat i))"

text \<open>The value of a string of decimal digits.\<close>

definition digits_value :: "string \<Rightarrow> nat" where
  "digits_value s = foldl (\<lambda>a c. 10 * a + (of_char c - 48)) 0 s"

definition note_key :: "int \<Rightarrow> string" where
  "note_key idx = ''note'' @ dec_int idx"

definition initStorage :: "preferences \<Rightarrow> preferences" where
  "initStorage p = (if \<not> isKey NOTES_COUNT_KEY p then putInt NOTES_COUNT_KEY 0 p else p)"

definition loadNotesCount :: "preferences \<Rightarrow> int" where
  "loadNotesCount p = getInt NOTES_COUNT_KEY 0 p"

definition setNotesCount :: "int \<Rightarrow> preferences \<Rightarrow> preferences" where
  "setNotesCount n p = putInt NOTES_COUNT_KEY n p"

definition readNote :: "int \<Rightarrow> preferences \<Rightarrow> string" where
  "readNote idx p = getString (note_key idx) [] p"

definition saveNote :: "int \<Rightarrow> string \<Rightarrow> preferences \<Rightarrow> preferences" where
  "saveNote idx text p = putString (note_key idx) text p"

definition addNote :: "string \<Rightarrow> preferences \<Rightarrow> preferences" where
  "addNote text p =
     (let n = loadNotesCount p in
      if n \<ge> MAX_NOTES then setNotesCount MAX_NOTES (saveNote (MAX_NOTES - 1) text p)
      else setNotesCount (n + 1) (saveNote n text p))"

text \<open>The \<^verbatim>\<open>for (int i = idx; i < n-1; ++i)\<close> loop of \<^verbatim>\<open>removeNote\<close>.\<close>

function shift_down :: "int \<Rightarrow> int \<Rightarrow> preferences \<Rightarrow> preferences" where
  "shift_down i n p =
     (if i < n - 1 then shift_down (i + 1) n (saveNote i (readNote (i + 1) p) p) else p)"
  by pat_completeness auto
termination
  by (relation "measure (\<lambda>(i, n, p). nat (n - 1 - i))") auto

declare shift_down.simps [simp del]

definition removeNote :: "int \<Rightarrow> preferences \<Rightarrow> preferences" where
  "removeNote idx p =
     (let n = loadNotesCount p in
      if idx < 0 \<or> idx \<ge> n then p
      else setNotesCount (n - 1) (remove_key (note_key (n - 1)) (shift_down idx n p)))"

text \<open>
  The \<^verbatim>\<open>CLEAR_NOTES\<close> branch of \<^verbatim>\<open>TextCallback::onWrite\<close>: the loop
  \<^verbatim>\<open>for (int i = 0; i < n; ++i) prefs.remove("note" + i)\<close>, then \<^verbatim>\<open>setNotesCount(0)\<close>.
\<close>

function clear_from :: "int \<Rightarrow> int \<Rightarrow> preferences \<Rightarrow> preferences" where
  "clear_from i n p = (if i < n then clear_from (i + 1) n (remove_key (note_key i) p) else p)"
  by pat_completeness auto
termination
  by (relation "measure (\<lambda>(i, n, p). nat (n - i))") auto

declare clear_from.simps [simp del]

definition clearNotes :: "preferences \<Rightarrow> preferences" where
  "clearNotes p = setNotesCount 0 (clear_from 0 (loadNotesCount p) p)"

section \<open>The device\<close>

text \<open>
  The globals and function-local statics of the sketch form one record. \<^verbatim>\<open>unsigned long\<close>
  (the type of \<^verbatim>\<open>millis()\<close> and of every timestamp) is 32 bits wide on the ESP32 and its
  subtraction wraps around. The encoder position and its snapshot are \<^verbatim>\<open>long\<close>, 32 bits
  wide and signed: they are words read through \<open>sint\<close>, and \<^verbatim>\<open>encoderPos++\<close> and
  \<^verbatim>\<open>encoderPos--\<close> wrap around in two's complement. The page numbers (\<^verbatim>\<open>int\<close>) are
  modelled as \<^typ>\<open>int\<close>; they stay between 0 and 3.
  The display is an external collaborator: a paint call reads the state and changes none
  of it, so each one is recorded in the list \<open>drawn\<close>. Serial output and delays are left out.
\<close>

type_synonym u32 = "32 word"

type_synonym i32 = "32 word"

datatype level = LOW | HIGH

datatype draw = DrawDashboard | DrawNotesList | DrawNote int | DrawSystem

record device =
  prefs :: preferences
  bleEnabled :: bool
  bleEnableTs :: u32
  currentPage :: int
  selectedNoteIndex :: int
  encoderPos :: i32
  encoderMoved :: bool
  lastEncoderPos :: i32
  lastActivityMs :: u32
  lastA :: level
  lastB :: level
  btnDownTs :: u32
  btnDown :: bool
  manualLightOn :: bool
  lastRun :: u32
  lastBatMs :: u32
  ledc :: nat
  epoch :: "u32 option"
  drawn :: "draw list"

definition NUM_PAGES :: int where
  "NUM_PAGES = 4"

definition INACTIVITY_MIN :: u32 where
  "INACTIVITY_MIN = 30"

definition BLE_ENABLE_TIMEOUT_MS :: u32 where
  "BLE_ENABLE_TIMEOUT_MS = 2 * 60 * 1000"

definition LIGHT_PWM_ON :: nat where
  "LIGHT_PWM_ON = 200"

definition LIGHT_PWM_MIN :: nat where
  "LIGHT_PWM_MIN = 0"

definition drawDashboard :: "device \<Rightarrow> device" where
  "drawDashboard st = st\<lparr>drawn := drawn st @ [DrawDashboard]\<rparr>"

definition drawNotesList :: "device \<Rightarrow> device" where
  "drawNotesList st = st\<lparr>drawn := drawn st @ [DrawNotesList]\<rparr>"

definition drawNote :: "int \<Rightarrow> device \<Rightarrow> device" where
  "drawNote idx st = st\<lparr>drawn := drawn st @ [DrawNote idx]\<rparr>"

definition drawSystem :: "device \<Rightarrow> device" where
  "drawSystem st = st\<lparr>drawn := drawn st @ [DrawSystem]\<rparr>"

subsection \<open>The command callback\<close>

text \<open>
  The characteristic's value is a byte string (\<^verbatim>\<open>std::string\<close>) that may hold any byte.
  \<^verbatim>\<open>String(s.c_str())\<close> copies it up to its first NUL byte.
\<close>

definition c_str :: "string \<Rightarrow> string" where
  "c_str s = takeWhile (\<lambda>c. c \<noteq> CHR 0x00) s"

definition startsWith :: "string \<Rightarrow> string \<Rightarrow> bool" where
  "startsWith v pre = (length pre \<le> length v \<and> take (length pre) v = pre)"

definition substring :: "nat \<Rightarrow> string \<Rightarrow> string" where
  "substring left v = drop left v"

text \<open>
  \<^verbatim>\<open>String::toInt\<close> is \<^verbatim>\<open>atol\<close>: leading white space, an optional sign, then the
  leading decimal digits, saturating at the bounds of \<^verbatim>\<open>long\<close>.
\<close>

definition is_space :: "char \<Rightarrow> bool" where
  "is_space c = (c \<in> set [CHR '' '', CHR 0x09, CHR 0x0A, CHR 0x0B, CHR 0x0C, CHR 0x0D])"

definition is_digit :: "char \<Rightarrow> bool" where
  "is_digit c = (48 \<le> (of_char c :: nat) \<and> (of_char c :: nat) \<le> 57)"

definition toInt :: "string \<Rightarrow> int" where
  "toInt s =
     (let t = dropWhile is_space s;
          neg = (t \<noteq> [] \<and> hd t = CHR ''-'');
          u = (if t \<noteq> [] \<and> (hd t = CHR ''-'' \<or> hd t = CHR ''+'') then tl t else t);
          v = int (digits_value (takeWhile is_digit u))
      in if neg then max (- (2 ^ 31)) (- v) else min (2 ^ 31 - 1) v)"

definition onWrite :: "u32 \<Rightarrow> string \<Rightarrow> device \<Rightarrow> device" where
  "onWrite now s st =
     (if length s = 0 then st
      else
        let v = c_str s;
            st1 =
              (if startsWith v ''NOTE:'' then
                 drawNotesList (st\<lparr>prefs := addNote (substring 5 v) (prefs st)\<rparr>)
               else if startsWith v ''TIME:'' then
                 drawDashboard (st\<lparr>epoch := Some (word_of_int (toInt (substring 5 v)))\<rparr>)
               else if v = ''CLEAR_NOTES'' then
                 drawNotesList (st\<lparr>prefs := clearNotes (prefs st)\<rparr>)
               else if v = ''BLE:OFF'' then
                 (if bleEnabled st then drawDashboard (st\<lparr>bleEnabled := False\<rparr>) else st)
               else
                 drawNotesList (st\<lparr>prefs := addNote v (prefs st)\<rparr>))
        in st1\<lparr>lastActivityMs := now\<rparr>)"

subsection \<open>Wireless channel control\<close>

definition bleStart :: "u32 \<Rightarrow> device \<Rightarrow> device" where
  "bleStart now st =
     (if bleEnabled st then st
      else drawDashboard (st\<lparr>bleEnabled := True, bleEnableTs := now\<rparr>))"

definition bleStop :: "device \<Rightarrow> device" where
  "bleStop st = (if \<not> bleEnabled st then st else drawDashboard (st\<lparr>bleEnabled := False\<rparr>))"

subsection \<open>The main loop\<close>

text \<open>
  What one iteration of \<^verbatim>\<open>loop()\<close> reads from its environment: the three pin levels, the
  outcome of the light sensor's comparison \<^verbatim>\<open>lux < LUX_THRESHOLD_ON\<close>, and the value of
  each call of \<^verbatim>\<open>millis()\<close>, one field per call site in program order.
\<close>

record inputs =
  pinA :: level
  pinB :: level
  pinBtn :: level
  dark :: bool
  t_enc :: u32
  t_down :: u32
  t_held :: u32
  t_release :: u32
  t_bleStart :: u32
  t_bleOn :: u32
  t_bleCheck :: u32
  t_light :: u32
  t_lightRun :: u32
  t_bat :: u32
  t_batRun :: u32
  t_sleep :: u32

definition encoderISR :: "device \<Rightarrow> device" where
  "encoderISR st = st\<lparr>encoderMoved := True\<rparr>"

definition decodeEncoder :: "inputs \<Rightarrow> device \<Rightarrow> device" where
  "decodeEncoder inp st =
     (if encoderMoved st then
        let st1 = st\<lparr>encoderMoved := False\<rparr>;
            a = pinA inp;
            b = pinB inp
        in if a \<noteq> lastA st1 \<or> b \<noteq> lastB st1 then
             st1\<lparr>encoderPos := (if a = b then encoderPos st1 + 1 else encoderPos st1 - 1),
                 lastA := a, lastB := b, lastActivityMs := t_enc inp\<rparr>
           else st1
      else st)"

definition redrawPage :: "device \<Rightarrow> device" where
  "redrawPage st =
     (if currentPage st = 0 then drawDashboard st
      else if currentPage st = 1 then drawNotesList st
      else if currentPage st = 2 then drawNote (selectedNoteIndex st) st
      else if currentPage st = 3 then drawSystem st
      else st)"

text \<open>C++'s \<^verbatim>\<open>%\<close> truncates towards zero: it is \<open>smod\<close>.\<close>

definition pageChange :: "device \<Rightarrow> device" where
  "pageChange st =
     (if encoderPos st \<noteq> lastEncoderPos st then
        let st1 =
              (if sint (encoderPos st) > sint (lastEncoderPos st)
               then st\<lparr>currentPage := (currentPage st + 1) smod NUM_PAGES\<rparr>
               else st\<lparr>currentPage := (currentPage st - 1 + NUM_PAGES) smod NUM_PAGES\<rparr>);
            st2 = st1\<lparr>lastEncoderPos := encoderPos st1\<rparr>
        in redrawPage st2
      else st)"

definition shortPress :: "device \<Rightarrow> device" where
  "shortPress st =
     (if currentPage st = 1 then (drawNote (selectedNoteIndex st) st)\<lparr>currentPage := 2\<rparr>
      else if currentPage st = 2 then drawNotesList (st\<lparr>currentPage := 1\<rparr>)
      else
        let on = \<not> manualLightOn st
        in st\<lparr>manualLightOn := on, ledc := (if on then LIGHT_PWM_ON else 0)\<rparr>)"

definition longPress :: "inputs \<Rightarrow> device \<Rightarrow> device" where
  "longPress inp st =
     (if \<not> bleEnabled st then (bleStart (t_bleStart inp) st)\<lparr>lastActivityMs := t_bleOn inp\<rparr>
      else bleStop st)"

definition buttonStep :: "inputs \<Rightarrow> device \<Rightarrow> device" where
  "buttonStep inp st =
     (if pinBtn inp = LOW \<and> \<not> btnDown st then
        st\<lparr>btnDown := True, btnDownTs := t_down inp\<rparr>
      else if pinBtn inp = HIGH \<and> btnDown st then
        let held = t_held inp - btnDownTs st;
            st1 = st\<lparr>btnDown := False, lastActivityMs := t_release inp\<rparr>
        in if held < 800 then shortPress st1 else longPress inp st1
      else st)"

definition bleTimeout :: "inputs \<Rightarrow> device \<Rightarrow> device" where
  "bleTimeout inp st =
     (if bleEnabled st \<and> t_bleCheck inp - bleEnableTs st > BLE_ENABLE_TIMEOUT_MS
      then bleStop st else st)"

definition autoAdjustLight :: "inputs \<Rightarrow> device \<Rightarrow> device" where
  "autoAdjustLight inp st =
     (if t_light inp - lastRun st < 1000 then st
      else st\<lparr>lastRun := t_lightRun inp,
              ledc := (if dark inp then LIGHT_PWM_ON else LIGHT_PWM_MIN)\<rparr>)"

definition batteryRefresh :: "inputs \<Rightarrow> device \<Rightarrow> device" where
  "batteryRefresh inp st =
     (if t_bat inp - lastBatMs st > 15000 then
        let st1 = st\<lparr>lastBatMs := t_batRun inp\<rparr>;
            st2 = (if currentPage st1 = 0 then drawDashboard st1 else st1)
        in if currentPage st2 = 3 then drawSystem st2 else st2
      else st)"

text \<open>
  \<^verbatim>\<open>esp_deep_sleep_start()\<close> does not return: an iteration either leaves the device
  awake in a new state, or ends the run asleep.
\<close>

datatype outcome = Awake device | Asleep device

definition goToDeepSleep :: "device \<Rightarrow> device" where
  "goToDeepSleep st = st\<lparr>ledc := 0\<rparr>"

definition sleepDecision :: "inputs \<Rightarrow> device \<Rightarrow> outcome" where
  "sleepDecision inp st =
     (if \<not> bleEnabled st then
        let idleMs = t_sleep inp - lastActivityMs st
        in if idleMs > INACTIVITY_MIN * 60 * 1000
           then Asleep (goToDeepSleep (drawDashboard st))
           else Awake st
      else Awake st)"

text \<open>The state in which an iteration reaches its sleep decision.\<close>

definition beforeSleep :: "inputs \<Rightarrow> device \<Rightarrow> device" where
  "beforeSleep inp st =
     batteryRefresh inp (autoAdjustLight inp (bleTimeout inp
       (buttonStep inp (pageChange (decodeEncoder inp st)))))"

definition loop :: "inputs \<Rightarrow> device \<Rightarrow> outcome" where
  "loop inp st = sleepDecision inp (beforeSleep inp st)"

text \<open>
  \<^verbatim>\<open>setup()\<close> on the stored preferences, with the globals at their initialisers; the
  optional network time synchronisation is left out.
\<close>

definition setup_boot :: "u32 \<Rightarrow> preferences \<Rightarrow> device" where
  "setup_boot now p =
     (drawDashboard
        \<lparr>prefs = initStorage p, bleEnabled = False, bleEnableTs = 0, currentPage = 0,
         selectedNoteIndex = 0, encoderPos = 0, encoderMoved = False, lastEncoderPos = 0,
         lastActivityMs = 0, lastA = HIGH, lastB = HIGH, btnDownTs = 0, btnDown = False,
         manualLightOn = False, lastRun = 0, lastBatMs = 0, ledc = 0, epoch = None,
         drawn = []\<rparr>)\<lparr>lastActivityMs := now\<rparr>"

text \<open>
  The states the device can be in: after \<^verbatim>\<open>setup()\<close>, the pin-change interrupt, a write
  to the characteristic and an iteration of \<^verbatim>\<open>loop()\<close> that stays awake each lead from
  one to the next. The interrupt and the callback are taken between iterations.
\<close>

inductive reachable :: "device \<Rightarrow> bool" where
  at_boot: "reachable (setup_boot now p)"
| after_isr: "reachable st \<Longrightarrow> reachable (encoderISR st)"
| after_write: "reachable st \<Longrightarrow> reachable (onWrite now s st)"
| after_loop: "reachable st \<Longrightarrow> loop inp st = Awake st' \<Longrightarrow> reachable st'"

section \<open>Sequences of operations\<close>

datatype note_op = Append string | Remove int | ClearAll

fun apply_op :: "note_op \<Rightarrow> preferences \<Rightarrow> preferences" where
  "apply_op (Append text) p = addNote text p"
| "apply_op (Remove idx) p = removeNote idx p"
| "apply_op ClearAll p = clearNotes p"

definition run_ops :: "note_op list \<Rightarrow> preferences \<Rightarrow> preferences" where
  "run_ops ops p = foldl (\<lambda>q op. apply_op op q) p ops"

definition appends :: "string list \<Rightarrow> preferences \<Rightarrow> preferences" where
  "appends ts p = foldl (\<lambda>q t. addNote t q) p ts"

text \<open>A store without notes: the count reads 0 and no slot key is present.\<close>

definition empty_store :: "preferences \<Rightarrow> bool" where
  "empty_store p = (loadNotesCount p = 0 \<and> (\<forall>i. p (note_key i) = None))"

text \<open>
  The shape of a store that holds \<open>count\<close> notes: the count is between 0 and
  \<^verbatim>\<open>MAX_NOTES\<close>, every slot below it holds a string and no other slot key is present.
\<close>

definition store_inv :: "preferences \<Rightarrow> bool" where
  "store_inv p =
     (0 \<le> loadNotesCount p \<and> loadNotesCount p \<le> MAX_NOTES \<and>
      (\<forall>i. if 0 \<le> i \<and> i < loadNotesCount p
           then (\<exists>s. p (note_key i) = Some (StrV s))
           else p (note_key i) = None))"

text \<open>
  Turning the encoder: the interrupt marks the change and the next iteration samples the
  pair of lines.
\<close>

definition feed :: "inputs \<Rightarrow> (level \<times> level) list \<Rightarrow> device \<Rightarrow> device" where
  "feed inp pairs st =
     foldl (\<lambda>s ab. decodeEncoder (inp\<lparr>pinA := fst ab, pinB := snd ab\<rparr>) (encoderISR s)) st pairs"

text \<open>Navigation only: the first two blocks of an iteration, once per sampled pair.\<close>

definition navigate :: "inputs \<Rightarrow> (level \<times> level) list \<Rightarrow> device \<Rightarrow> device" where
  "navigate inp pairs st =
     foldl (\<lambda>s ab. pageChange (decodeEncoder (inp\<lparr>pinA := fst ab, pinB := snd ab\<rparr>) (encoderISR s)))
       st pairs"

text \<open>The button block over consecutive iterations.\<close>

definition button_run :: "inputs list \<Rightarrow> device \<Rightarrow> device" where
  "button_run inps st = foldl (\<lambda>s i. buttonStep i s) st inps"

text \<open>
  What the loop maintains about navigation: the position snapshot has caught up with the
  position, and the page number is one of the four pages.
\<close>

definition nav_inv :: "device \<Rightarrow> bool" where
  "nav_inv st =
     (lastEncoderPos st = encoderPos st \<and> 0 \<le> currentPage st \<and> currentPage st < NUM_PAGES)"

text \<open>An iteration at time \<open>t\<close> with the lines and the button released.\<close>

definition quiet :: "u32 \<Rightarrow> inputs" where
  "quiet t =
     \<lparr>pinA = HIGH, pinB = HIGH, pinBtn = HIGH, dark = False, t_enc = t, t_down = t,
      t_held = t, t_release = t, t_bleStart = t, t_bleOn = t, t_bleCheck = t, t_light = t,
      t_lightRun = t, t_bat = t, t_batRun = t, t_sleep = t\<rparr>"

text \<open>
  A long run of forward ticks from boot: before iteration \<open>n\<close> the interrupt fires, and the
  iteration samples both lines low when \<open>n\<close> is even and both high when it is odd, with
  the button released and every clock reading 0.
\<close>

definition tick_inputs :: "nat \<Rightarrow> inputs" where
  "tick_inputs n =
     (quiet 0)\<lparr>pinA := (if even n then LOW else HIGH), pinB := (if even n then LOW else HIGH)\<rparr>"

fun climb :: "nat \<Rightarrow> device" where
  "climb 0 = setup_boot 0 Map.empty"
| "climb (Suc n) = beforeSleep (tick_inputs n) (encoderISR (climb n))"

text \<open>What the state after \<open>n\<close> such ticks looks like.\<close>

definition climbing :: "nat \<Rightarrow> device \<Rightarrow> bool" where
  "climbing n st =
     (sint (encoderPos st) = int n \<and> lastEncoderPos st = encoderPos st \<and>
      currentPage st = int (n mod 4) \<and>
      lastA st = (if even n then HIGH else LOW) \<and> lastB st = (if even n then HIGH else LOW) \<and>
      \<not> btnDown st \<and> \<not> bleEnabled st \<and>
      lastRun st = 0 \<and> lastBatMs st = 0 \<and> lastActivityMs st = 0)"

section \<open>Keys are distinct\<close>

lemma digits_value_snoc: "digits_value (s @ [c]) = 10 * digits_value s + (of_char c - 48)"
  by (simp add: digits_value_def)

lemma of_char_digit_char: "d < 10 \<Longrightarrow> of_char (digit_char d) = 48 + d"
  by (simp add: digit_char_def)

lemma digits_value_dec_nat: "digits_value (dec_nat n) = n"
proof (induction n rule: dec_nat.induct)
  case (1 n)
  show ?case
  proof (cases "n < 10")
    case True
    then show ?thesis
      by (subst dec_nat.simps) (simp add: digits_value_def of_char_digit_char)
  next
    case False
    with 1 show ?thesis
      by (subst dec_nat.simps) (simp add: digits_value_snoc of_char_digit_char)
  qed
qed

lemma dec_nat_inj: "dec_nat m = dec_nat n \<Longrightarrow> m = n"
  by (metis digits_value_dec_nat)

lemma dec_nat_chars: "c \<in> set (dec_nat n) \<Longrightarrow> \<exists>d<10. c = digit_char d"
proof (induction n rule: dec_nat.induct)
  case (1 n)
  show ?case
  proof (cases "n < 10")
    case True
    with 1(2) show ?thesis
      by (subst (asm) dec_nat.simps) auto
  next
    case False
    with 1(2) have "c \<in> set (dec_nat (n div 10)) \<or> c = digit_char (n mod 10)"
      by (subst (asm) dec_nat.simps) auto
    then show ?thesis
    proof
      assume "c \<in> set (dec_nat (n div 10))"
      with False 1(1) show ?thesis by blast
    next
      have "n mod 10 < 10" by simp
      moreover assume "c = digit_char (n mod 10)"
      ultimately show ?thesis by blast
    qed
  qed
qed

lemma dec_nat_no_minus: "CHR ''-'' \<notin> set (dec_nat n)"
proof
  assume "CHR ''-'' \<in> set (dec_nat n)"
  then obtain d where "d < 10" "CHR ''-'' = digit_char d"
    using dec_nat_chars by blast
  then have "of_char (CHR ''-'') = (48 + d :: nat)"
    by (simp add: of_char_digit_char)
  then show False by simp
qed

lemma dec_nat_nonempty: "dec_nat n \<noteq> []"
  by (subst dec_nat.simps) simp

lemma dec_int_inj: "dec_int i = dec_int j \<Longrightarrow> i = j"
proof -
  assume eq: "dec_int i = dec_int j"
  have hd_neg: "\<And>n m. CHR ''-'' # dec_nat n \<noteq> dec_nat m"
    using dec_nat_no_minus by (metis list.set_intros(1))
  show ?thesis
  proof (cases "i < 0")
    case True
    show ?thesis
    proof (cases "j < 0")
      case True
      with \<open>i < 0\<close> eq have "nat (- i) = nat (- j)"
        by (simp add: dec_int_def dec_nat_inj)
      with True \<open>i < 0\<close> show ?thesis by simp
    next
      case False
      with \<open>i < 0\<close> eq hd_neg show ?thesis by (simp add: dec_int_def)
    qed
  next
    case False
    show ?thesis
    proof (cases "j < 0")
      case True
      with \<open>\<not> i < 0\<close> eq hd_neg [of "nat (- j)" "nat i"] show ?thesis
        by (simp add: dec_int_def)
    next
      case False
      with \<open>\<not> i < 0\<close> eq have "nat i = nat j"
        by (simp add: dec_int_def dec_nat_inj)
      with False \<open>\<not> i < 0\<close> show ?thesis by simp
    qed
  qed
qed

lemma note_key_inj [simp]: "note_key i = note_key j \<longleftrightarrow> i = j"
  by (auto simp: note_key_def dest: dec_int_inj)

lemma dec_int_chars: "c \<in> set (dec_int i) \<Longrightarrow> c = CHR ''-'' \<or> (\<exists>d<10. c = digit_char d)"
  by (auto simp: dec_int_def dest: dec_nat_chars split: if_splits)

lemma note_key_not_count [simp]: "note_key i \<noteq> NOTES_COUNT_KEY" "NOTES_COUNT_KEY \<noteq> note_key i"
proof -
  have "note_key i \<noteq> NOTES_COUNT_KEY"
  proof
    assume "note_key i = NOTES_COUNT_KEY"
    then have "dec_int i = ''s_cnt''"
      by (simp add: note_key_def NOTES_COUNT_KEY_def)
    then have "CHR ''s'' \<in> set (dec_int i)" by simp
    then consider "CHR ''s'' = CHR ''-''" | d where "d < 10" "CHR ''s'' = digit_char d"
      using dec_int_chars by blast
    then show False
    proof cases
      case 1
      then show False by simp
    next
      case 2
      then have "of_char (CHR ''s'') = (48 + d :: nat)"
        by (simp add: of_char_digit_char)
      with 2(1) show False by simp
    qed
  qed
  then show "note_key i \<noteq> NOTES_COUNT_KEY" "NOTES_COUNT_KEY \<noteq> note_key i"
    by auto
qed

section \<open>The note store\<close>

lemma count_setNotesCount [simp]: "loadNotesCount (setNotesCount n p) = n"
  by (simp add: loadNotesCount_def setNotesCount_def getInt_def putInt_def)

lemma count_saveNote [simp]: "loadNotesCount (saveNote i t p) = loadNotesCount p"
  by (simp add: loadNotesCount_def saveNote_def getInt_def putString_def)

lemma count_remove_key [simp]: "loadNotesCount (remove_key (note_key i) p) = loadNotesCount p"
  by (simp add: loadNotesCount_def remove_key_def getInt_def)

lemma slot_setNotesCount [simp]: "setNotesCount n p (note_key i) = p (note_key i)"
  by (simp add: setNotesCount_def putInt_def)

lemma slot_saveNote [simp]:
  "saveNote i t p (note_key j) = (if j = i then Some (StrV t) else p (note_key j))"
  by (simp add: saveNote_def putString_def)

lemma slot_remove_key [simp]:
  "remove_key (note_key i) p (note_key j) = (if j = i then None else p (note_key j))"
  by (simp add: remove_key_def)

lemma readNote_slot:
  "readNote i p = (case p (note_key i) of Some (StrV s) \<Rightarrow> s | _ \<Rightarrow> [])"
  by (simp add: readNote_def getString_def)

lemma readNote_setNotesCount [simp]: "readNote i (setNotesCount n p) = readNote i p"
  by (simp add: readNote_slot)

lemma readNote_saveNote [simp]:
  "readNote j (saveNote i t p) = (if j = i then t else readNote j p)"
  by (simp add: readNote_slot)

lemma readNote_remove_key [simp]:
  "readNote j (remove_key (note_key i) p) = (if j = i then [] else readNote j p)"
  by (simp add: readNote_slot)

lemma count_shift_down [simp]: "loadNotesCount (shift_down i n p) = loadNotesCount p"
proof (induction i n p rule: shift_down.induct)
  case (1 i n p)
  then show ?case
    by (subst shift_down.simps) simp
qed

lemma slot_shift_down:
  "shift_down i n p (note_key j) =
     (if i \<le> j \<and> j < n - 1 then Some (StrV (readNote (j + 1) p)) else p (note_key j))"
proof (induction i n p rule: shift_down.induct)
  case (1 i n p)
  show ?case
  proof (cases "i < n - 1")
    case True
    with 1 show ?thesis
      by (subst shift_down.simps) auto
  next
    case False
    then show ?thesis
      by (subst shift_down.simps) auto
  qed
qed

lemma readNote_shift_down:
  "readNote j (shift_down i n p) =
     (if i \<le> j \<and> j < n - 1 then readNote (j + 1) p else readNote j p)"
  by (simp add: readNote_slot [of j] slot_shift_down)

lemma count_clear_from [simp]: "loadNotesCount (clear_from i n p) = loadNotesCount p"
proof (induction i n p rule: clear_from.induct)
  case (1 i n p)
  then show ?case
    by (subst clear_from.simps) simp
qed

lemma slot_clear_from:
  "clear_from i n p (note_key j) = (if i \<le> j \<and> j < n then None else p (note_key j))"
proof (induction i n p rule: clear_from.induct)
  case (1 i n p)
  show ?case
  proof (cases "i < n")
    case True
    with 1 show ?thesis
      by (subst clear_from.simps) auto
  next
    case False
    then show ?thesis
      by (subst clear_from.simps) auto
  qed
qed

lemma empty_store_inv: "empty_store p \<Longrightarrow> store_inv p"
  by (simp add: empty_store_def store_inv_def MAX_NOTES_def)

lemma addNote_inv: "store_inv p \<Longrightarrow> store_inv (addNote t p)"
  by (auto simp: store_inv_def addNote_def Let_def MAX_NOTES_def)

lemma removeNote_inv: "store_inv p \<Longrightarrow> store_inv (removeNote idx p)"
  by (auto simp: store_inv_def removeNote_def Let_def slot_shift_down)

lemma clearNotes_inv: "store_inv p \<Longrightarrow> store_inv (clearNotes p)"
  by (auto simp: store_inv_def clearNotes_def slot_clear_from)

lemma apply_op_inv: "store_inv p \<Longrightarrow> store_inv (apply_op op p)"
  by (cases op) (simp_all add: addNote_inv removeNote_inv clearNotes_inv)

lemma run_ops_inv: "store_inv p \<Longrightarrow> store_inv (run_ops ops p)"
  unfolding run_ops_def
  by (induction ops arbitrary: p) (simp_all add: apply_op_inv)



lemma empty_store_init: "empty_store (initStorage Map.empty)"
  by (simp add: empty_store_def initStorage_def isKey_def putInt_def loadNotesCount_def
      getInt_def)

lemma count_addNote:
  "loadNotesCount (addNote t p) =
     (if loadNotesCount p \<ge> MAX_NOTES then MAX_NOTES else loadNotesCount p + 1)"
  by (simp add: addNote_def Let_def)

lemma readNote_addNote:
  "readNote j (addNote t p) =
     (if j = (if loadNotesCount p \<ge> MAX_NOTES then MAX_NOTES - 1 else loadNotesCount p)
      then t else readNote j p)"
  by (simp add: addNote_def Let_def)

lemma appends_snoc: "appends (ts @ [t]) p = addNote t (appends ts p)"
  by (simp add: appends_def)

lemma count_appends_empty:
  "loadNotesCount p = 0 \<Longrightarrow>
   loadNotesCount (appends ts p) = min MAX_NOTES (int (length ts))"
proof (induction ts rule: rev_induct)
  case Nil
  then show ?case by (simp add: appends_def MAX_NOTES_def)
next
  case (snoc t ts)
  then show ?case
    by (auto simp: appends_snoc count_addNote MAX_NOTES_def)
qed

lemma last_appends:
  "loadNotesCount p = 0 \<Longrightarrow> ts \<noteq> [] \<Longrightarrow>
   readNote (min (MAX_NOTES - 1) (int (length ts) - 1)) (appends ts p) = last ts"
proof (induction ts rule: rev_induct)
  case Nil
  then show ?case by simp
next
  case (snoc t ts)
  then show ?case
    by (auto simp: appends_snoc readNote_addNote count_appends_empty MAX_NOTES_def)
qed

text \<open>
  Claim C1 (append overwrite law). From a store whose count is 0, \<^verbatim>\<open>MAX_NOTES+1\<close> calls of
  \<^verbatim>\<open>addNote\<close> leave the count at \<^verbatim>\<open>MAX_NOTES\<close> and the text of the last call in slot
  \<^verbatim>\<open>MAX_NOTES-1\<close>. A single \<^verbatim>\<open>addNote\<close> with the count below \<^verbatim>\<open>MAX_NOTES\<close> stores
  the text at slot \<open>count\<close> and increments the count; with the count at \<^verbatim>\<open>MAX_NOTES\<close> it
  overwrites slot \<^verbatim>\<open>MAX_NOTES-1\<close> and leaves the count. No other slot changes.
\<close>

theorem addNote_overwrite_law:
  "(loadNotesCount p = 0 \<and> int (length ts) = MAX_NOTES + 1 \<longrightarrow>
      loadNotesCount (appends ts p) = MAX_NOTES \<and>
      readNote (MAX_NOTES - 1) (appends ts p) = last ts) \<and>
   (loadNotesCount p < MAX_NOTES \<longrightarrow>
      readNote (loadNotesCount p) (addNote text p) = text \<and>
      loadNotesCount (addNote text p) = loadNotesCount p + 1 \<and>
      (\<forall>j. j \<noteq> loadNotesCount p \<longrightarrow> readNote j (addNote text p) = readNote j p)) \<and>
   (loadNotesCount p = MAX_NOTES \<longrightarrow>
      readNote (MAX_NOTES - 1) (addNote text p) = text \<and>
      loadNotesCount (addNote text p) = MAX_NOTES \<and>
      (\<forall>j. j \<noteq> MAX_NOTES - 1 \<longrightarrow> readNote j (addNote text p) = readNote j p))"
proof (intro conjI impI)
  assume h: "loadNotesCount p = 0 \<and> int (length ts) = MAX_NOTES + 1"
  then show "loadNotesCount (appends ts p) = MAX_NOTES"
    by (simp add: count_appends_empty)
  from h have "ts \<noteq> []" by (auto simp: MAX_NOTES_def)
  with h last_appends [of p ts] show "readNote (MAX_NOTES - 1) (appends ts p) = last ts"
    by simp
qed (simp_all add: count_addNote readNote_addNote)

theorem addNote_overwrite_law_witness:
  "loadNotesCount (initStorage Map.empty) = 0 \<and>
   loadNotesCount (appends (replicate 16 ''old'' @ [''new'']) (initStorage Map.empty)) = 16 \<and>
   readNote 15 (appends (replicate 16 ''old'' @ [''new'']) (initStorage Map.empty)) = ''new'' \<and>
   readNote 0 (addNote ''first'' (initStorage Map.empty)) = ''first'' \<and>
   loadNotesCount (addNote ''first'' (initStorage Map.empty)) = 1 \<and>
   loadNotesCount (appends (replicate 16 ''old'') (initStorage Map.empty)) = 16 \<and>
   readNote 15 (addNote ''new'' (appends (replicate 16 ''old'') (initStorage Map.empty))) = ''new''"
proof -
  let ?p = "initStorage Map.empty"
  have c0: "loadNotesCount ?p = 0"
    using empty_store_init by (simp add: empty_store_def)
  have c16: "loadNotesCount (appends (replicate 16 ''old'') ?p) = 16"
    using c0 by (simp add: count_appends_empty MAX_NOTES_def)
  show ?thesis
    using c0 c16
      addNote_overwrite_law [of ?p "replicate 16 ''old'' @ [''new'']" "''first''"]
      addNote_overwrite_law [of "appends (replicate 16 ''old'') ?p" "[]" "''new''"]
    by (simp add: MAX_NOTES_def)
qed


lemma readNote_absent: "p (note_key i) = None \<Longrightarrow> readNote i p = []"
  by (simp add: readNote_slot)

lemma store_inv_outside:
  "store_inv p \<Longrightarrow> i < 0 \<or> loadNotesCount p \<le> i \<Longrightarrow> p (note_key i) = None"
  unfolding store_inv_def by (metis not_le)

lemma store_inv_inside:
  "store_inv p \<Longrightarrow> 0 \<le> i \<Longrightarrow> i < loadNotesCount p \<Longrightarrow> \<exists>s. p (note_key i) = Some (StrV s)"
  unfolding store_inv_def by metis

lemma count_removeNote:
  "0 \<le> idx \<Longrightarrow> idx < loadNotesCount p \<Longrightarrow>
   loadNotesCount (removeNote idx p) = loadNotesCount p - 1"
  by (simp add: removeNote_def Let_def)

lemma readNote_removeNote:
  "0 \<le> idx \<Longrightarrow> idx < loadNotesCount p \<Longrightarrow>
   readNote j (removeNote idx p) =
     (if j = loadNotesCount p - 1 then []
      else if idx \<le> j \<and> j < loadNotesCount p - 1 then readNote (j + 1) p
      else readNote j p)"
  by (simp add: removeNote_def Let_def readNote_shift_down)

lemma removeNote_outside: "idx < 0 \<or> loadNotesCount p \<le> idx \<Longrightarrow> removeNote idx p = p"
  by (auto simp: removeNote_def Let_def)

text \<open>
  Claim C2 (remove contract). For an index within \<open>[0, count)\<close>, \<^verbatim>\<open>removeNote\<close> decrements
  the count and moves every note above the index down by one slot, leaving the notes
  below it in place; in a store of the shape \<open>store_inv\<close> a read at any slot from the
  index on then returns what the next slot held before. For an index outside
  \<open>[0, count)\<close> the store is unchanged.
\<close>

theorem removeNote_contract:
  "(0 \<le> idx \<and> idx < loadNotesCount p \<longrightarrow>
      loadNotesCount (removeNote idx p) = loadNotesCount p - 1 \<and>
      (\<forall>j. idx \<le> j \<and> j < loadNotesCount p - 1 \<longrightarrow>
           readNote j (removeNote idx p) = readNote (j + 1) p) \<and>
      (\<forall>j. j < idx \<longrightarrow> readNote j (removeNote idx p) = readNote j p) \<and>
      (store_inv p \<longrightarrow> (\<forall>j. idx \<le> j \<longrightarrow> readNote j (removeNote idx p) = readNote (j + 1) p))) \<and>
   (idx < 0 \<or> loadNotesCount p \<le> idx \<longrightarrow> removeNote idx p = p)"
proof (intro conjI impI allI)
  fix j
  assume h: "0 \<le> idx \<and> idx < loadNotesCount p" and inv: "store_inv p" and j: "idx \<le> j"
  show "readNote j (removeNote idx p) = readNote (j + 1) p"
  proof (cases "j < loadNotesCount p - 1")
    case True
    with h j show ?thesis by (simp add: readNote_removeNote)
  next
    case False
    then have "p (note_key (j + 1)) = None"
      using inv store_inv_outside [of p "j + 1"] by simp
    moreover have "removeNote idx p (note_key j) = None"
      using False removeNote_inv [OF inv, of idx] h
        store_inv_outside [of "removeNote idx p" j]
      by (simp add: count_removeNote)
    ultimately show ?thesis by (simp add: readNote_absent)
  qed
qed (simp_all add: count_removeNote readNote_removeNote removeNote_outside)


lemma appends_inv: "store_inv p \<Longrightarrow> store_inv (appends ts p)"
  unfolding appends_def
  by (induction ts arbitrary: p) (simp_all add: addNote_inv)

theorem removeNote_contract_witness:
  "loadNotesCount (appends [''a'', ''b'', ''c''] (initStorage Map.empty)) = 3 \<and>
   store_inv (appends [''a'', ''b'', ''c''] (initStorage Map.empty)) \<and>
   loadNotesCount (removeNote 0 (appends [''a'', ''b'', ''c''] (initStorage Map.empty))) = 2 \<and>
   readNote 0 (removeNote 0 (appends [''a'', ''b'', ''c''] (initStorage Map.empty))) = ''b'' \<and>
   readNote 1 (removeNote 0 (appends [''a'', ''b'', ''c''] (initStorage Map.empty))) = ''c'' \<and>
   readNote 2 (removeNote 0 (appends [''a'', ''b'', ''c''] (initStorage Map.empty))) = [] \<and>
   readNote 0 (removeNote 1 (appends [''a'', ''b'', ''c''] (initStorage Map.empty))) = ''a'' \<and>
   removeNote 3 (appends [''a'', ''b'', ''c''] (initStorage Map.empty)) =
     appends [''a'', ''b'', ''c''] (initStorage Map.empty) \<and>
   removeNote (- 1) (appends [''a'', ''b'', ''c''] (initStorage Map.empty)) =
     appends [''a'', ''b'', ''c''] (initStorage Map.empty)"
proof -
  let ?p = "appends [''a'', ''b'', ''c''] (initStorage Map.empty)"
  have c0: "loadNotesCount (initStorage Map.empty) = 0"
    using empty_store_init by (simp add: empty_store_def)
  have c3: "loadNotesCount ?p = 3"
    using c0 by (simp add: count_appends_empty MAX_NOTES_def)
  have inv: "store_inv ?p"
    by (simp add: appends_inv empty_store_inv empty_store_init)
  have r: "readNote 0 ?p = ''a''" "readNote 1 ?p = ''b''" "readNote 2 ?p = ''c''"
    "readNote 3 ?p = []"
    using c0 by (simp_all add: appends_def readNote_addNote count_addNote MAX_NOTES_def
        readNote_absent empty_store_init [unfolded empty_store_def])
  have a: "loadNotesCount (removeNote 0 ?p) = 2"
    and b: "\<forall>j. 0 \<le> j \<longrightarrow> readNote j (removeNote 0 ?p) = readNote (j + 1) ?p"
    using removeNote_contract [of 0 ?p] c3 inv by simp_all
  have c: "\<forall>j. j < 1 \<longrightarrow> readNote j (removeNote 1 ?p) = readNote j ?p"
    using removeNote_contract [of 1 ?p] c3 by simp
  have d: "removeNote 3 ?p = ?p" "removeNote (- 1) ?p = ?p"
    using removeNote_contract [of 3 ?p] removeNote_contract [of "- 1" ?p] c3 by simp_all
  from b have "readNote 0 (removeNote 0 ?p) = readNote (0 + 1) ?p"
    "readNote 1 (removeNote 0 ?p) = readNote (1 + 1) ?p"
    "readNote 2 (removeNote 0 ?p) = readNote (2 + 1) ?p"
    by simp_all
  moreover from c have "readNote 0 (removeNote 1 ?p) = readNote 0 ?p" by simp
  ultimately show ?thesis
    using c3 inv a d r by simp
qed


text \<open>
  Claim C9 (read degrades to empty). In every store built from an empty one by
  \<^verbatim>\<open>addNote\<close>, \<^verbatim>\<open>removeNote\<close> and clearing, \<^verbatim>\<open>readNote\<close> at an index outside
  \<open>[0, count)\<close>, negative ones included, returns the empty text, and at an index within
  \<open>[0, count)\<close> it returns the string stored under that slot's key. \<^verbatim>\<open>readNote\<close> has no
  failing branch: it is a total function of the index and the store.
\<close>

theorem readNote_total_degrade:
  "empty_store p0 \<Longrightarrow>
   (idx < 0 \<or> loadNotesCount (run_ops ops p0) \<le> idx \<longrightarrow> readNote idx (run_ops ops p0) = []) \<and>
   (0 \<le> idx \<and> idx < loadNotesCount (run_ops ops p0) \<longrightarrow>
      run_ops ops p0 (note_key idx) = Some (StrV (readNote idx (run_ops ops p0))))"
proof -
  assume "empty_store p0"
  then have inv: "store_inv (run_ops ops p0)"
    by (simp add: run_ops_inv empty_store_inv)
  show ?thesis
  proof (intro conjI impI)
    assume "idx < 0 \<or> loadNotesCount (run_ops ops p0) \<le> idx"
    with inv show "readNote idx (run_ops ops p0) = []"
      by (simp add: readNote_absent store_inv_outside)
  next
    assume "0 \<le> idx \<and> idx < loadNotesCount (run_ops ops p0)"
    with inv obtain s where "run_ops ops p0 (note_key idx) = Some (StrV s)"
      using store_inv_inside by blast
    then show "run_ops ops p0 (note_key idx) = Some (StrV (readNote idx (run_ops ops p0)))"
      by (simp add: readNote_slot)
  qed
qed

lemma run_ops_example:
  "loadNotesCount (run_ops [Append ''a'', Append ''b'', Remove 0] (initStorage Map.empty)) = 1"
  "readNote 0 (run_ops [Append ''a'', Append ''b'', Remove 0] (initStorage Map.empty)) = ''b''"
proof -
  have c0: "loadNotesCount (initStorage Map.empty) = 0"
    using empty_store_init by (simp add: empty_store_def)
  then show
    "loadNotesCount (run_ops [Append ''a'', Append ''b'', Remove 0] (initStorage Map.empty)) = 1"
    "readNote 0 (run_ops [Append ''a'', Append ''b'', Remove 0] (initStorage Map.empty)) = ''b''"
    by (simp_all add: run_ops_def count_addNote count_removeNote readNote_removeNote
        readNote_addNote MAX_NOTES_def)
qed

theorem readNote_total_degrade_witness:
  "empty_store (initStorage Map.empty) \<and>
   loadNotesCount (run_ops [Append ''a'', Append ''b'', Remove 0] (initStorage Map.empty)) = 1 \<and>
   readNote 1 (run_ops [Append ''a'', Append ''b'', Remove 0] (initStorage Map.empty)) = [] \<and>
   readNote (- 1) (run_ops [Append ''a'', Append ''b'', Remove 0] (initStorage Map.empty)) = [] \<and>
   run_ops [Append ''a'', Append ''b'', Remove 0] (initStorage Map.empty) (note_key 0) =
     Some (StrV ''b'')"
  using empty_store_init run_ops_example
    readNote_total_degrade [OF empty_store_init, of 1 "[Append ''a'', Append ''b'', Remove 0]"]
    readNote_total_degrade [OF empty_store_init, of "- 1" "[Append ''a'', Append ''b'', Remove 0]"]
    readNote_total_degrade [OF empty_store_init, of 0 "[Append ''a'', Append ''b'', Remove 0]"]
  by simp

lemma slot_removeNote_last:
  "0 \<le> idx \<Longrightarrow> idx < loadNotesCount q \<Longrightarrow>
   removeNote idx q (note_key (loadNotesCount q - 1)) = None"
  by (simp add: removeNote_def Let_def)

lemma slot_clearNotes:
  "clearNotes q (note_key i) = (if 0 \<le> i \<and> i < loadNotesCount q then None else q (note_key i))"
  by (simp add: clearNotes_def slot_clear_from)

lemma count_clearNotes: "loadNotesCount (clearNotes q) = 0"
  by (simp add: clearNotes_def)

text \<open>
  Claim C10 (store cleanliness). In every store built from an empty one by \<^verbatim>\<open>addNote\<close>,
  \<^verbatim>\<open>removeNote\<close> and clearing, no slot key at or above the count is present and every
  such slot reads back as the empty text. \<^verbatim>\<open>removeNote\<close> at a valid index deletes the
  key of the vacated last slot, and clearing deletes the key of every slot below the count
  and sets the count to 0.
\<close>

theorem store_cleanliness:
  "(empty_store p0 \<longrightarrow>
      (\<forall>i. loadNotesCount (run_ops ops p0) \<le> i \<longrightarrow>
           run_ops ops p0 (note_key i) = None \<and> readNote i (run_ops ops p0) = [])) \<and>
   (0 \<le> idx \<and> idx < loadNotesCount q \<longrightarrow>
      removeNote idx q (note_key (loadNotesCount q - 1)) = None \<and>
      readNote (loadNotesCount q - 1) (removeNote idx q) = []) \<and>
   (\<forall>i. 0 \<le> i \<and> i < loadNotesCount q \<longrightarrow>
      clearNotes q (note_key i) = None \<and> readNote i (clearNotes q) = []) \<and>
   loadNotesCount (clearNotes q) = 0"
proof (intro conjI impI allI)
  fix i
  assume "empty_store p0" and i: "loadNotesCount (run_ops ops p0) \<le> i"
  then have "store_inv (run_ops ops p0)"
    by (simp add: run_ops_inv empty_store_inv)
  with i show "run_ops ops p0 (note_key i) = None"
    by (simp add: store_inv_outside)
  then show "readNote i (run_ops ops p0) = []"
    by (rule readNote_absent)
qed (simp_all add: slot_removeNote_last slot_clearNotes readNote_absent count_clearNotes)

theorem store_cleanliness_witness:
  "empty_store (initStorage Map.empty) \<and>
   loadNotesCount (run_ops [Append ''a'', Append ''b'', Remove 0] (initStorage Map.empty)) = 1 \<and>
   run_ops [Append ''a'', Append ''b'', Remove 0] (initStorage Map.empty) (note_key 1) = None \<and>
   readNote 1 (run_ops [Append ''a'', Append ''b'', Remove 0] (initStorage Map.empty)) = [] \<and>
   loadNotesCount (appends [''a'', ''b''] (initStorage Map.empty)) = 2 \<and>
   removeNote 0 (appends [''a'', ''b''] (initStorage Map.empty)) (note_key 1) = None \<and>
   clearNotes (appends [''a'', ''b''] (initStorage Map.empty)) (note_key 0) = None \<and>
   clearNotes (appends [''a'', ''b''] (initStorage Map.empty)) (note_key 1) = None \<and>
   loadNotesCount (clearNotes (appends [''a'', ''b''] (initStorage Map.empty))) = 0"
proof -
  let ?ops = "[Append ''a'', Append ''b'', Remove 0]"
  let ?q = "appends [''a'', ''b''] (initStorage Map.empty)"
  have c0: "loadNotesCount (initStorage Map.empty) = 0"
    using empty_store_init by (simp add: empty_store_def)
  have c2: "loadNotesCount ?q = 2"
    using c0 by (simp add: count_appends_empty MAX_NOTES_def)
  have law: "(\<forall>i. loadNotesCount (run_ops ?ops (initStorage Map.empty)) \<le> i \<longrightarrow>
           run_ops ?ops (initStorage Map.empty) (note_key i) = None \<and>
           readNote i (run_ops ?ops (initStorage Map.empty)) = [])"
    and rm: "removeNote 0 ?q (note_key (loadNotesCount ?q - 1)) = None"
    and cl: "\<forall>i. 0 \<le> i \<and> i < loadNotesCount ?q \<longrightarrow>
      clearNotes ?q (note_key i) = None \<and> readNote i (clearNotes ?q) = []"
    and cz: "loadNotesCount (clearNotes ?q) = 0"
    using store_cleanliness [of "initStorage Map.empty" ?ops 0 ?q] empty_store_init c2
    by simp_all
  from law have "run_ops ?ops (initStorage Map.empty) (note_key 1) = None"
    "readNote 1 (run_ops ?ops (initStorage Map.empty)) = []"
    by (simp_all add: run_ops_example)
  moreover from cl c2 have "clearNotes ?q (note_key 0) = None" "clearNotes ?q (note_key 1) = None"
    by simp_all
  ultimately show ?thesis
    using empty_store_init run_ops_example(1) c2 rm cz by simp
qed


section \<open>Power and sleep\<close>

lemmas draw_defs = drawDashboard_def drawNotesList_def drawNote_def drawSystem_def

text \<open>
  Claim C4 (idle-to-sleep boundary), as amended. With the wireless channel disabled the
  sleep decision sleeps exactly when the idle duration \<^verbatim>\<open>millis() - lastActivityMs\<close> is
  greater than the threshold of \<^verbatim>\<open>INACTIVITY_MIN\<close> minutes: one millisecond below the
  threshold and at the threshold itself the device stays awake, one millisecond above it
  the device goes to sleep.
\<close>

theorem sleep_boundary:
  "\<not> bleEnabled st \<Longrightarrow>
   (t_sleep inp - lastActivityMs st = INACTIVITY_MIN * 60 * 1000 - 1 \<longrightarrow>
      sleepDecision inp st = Awake st) \<and>
   (t_sleep inp - lastActivityMs st = INACTIVITY_MIN * 60 * 1000 \<longrightarrow>
      sleepDecision inp st = Awake st) \<and>
   (t_sleep inp - lastActivityMs st = INACTIVITY_MIN * 60 * 1000 + 1 \<longrightarrow>
      sleepDecision inp st = Asleep (goToDeepSleep (drawDashboard st))) \<and>
   (t_sleep inp - lastActivityMs st \<le> INACTIVITY_MIN * 60 * 1000 \<longrightarrow>
      sleepDecision inp st = Awake st) \<and>
   (t_sleep inp - lastActivityMs st > INACTIVITY_MIN * 60 * 1000 \<longrightarrow>
      sleepDecision inp st = Asleep (goToDeepSleep (drawDashboard st)))"
  by (auto simp: sleepDecision_def Let_def INACTIVITY_MIN_def)

theorem sleep_boundary_witness:
  "\<not> bleEnabled (setup_boot 0 Map.empty) \<and>
   t_sleep (quiet 1799999) - lastActivityMs (setup_boot 0 Map.empty) = INACTIVITY_MIN * 60 * 1000 - 1 \<and>
   sleepDecision (quiet 1799999) (setup_boot 0 Map.empty) = Awake (setup_boot 0 Map.empty) \<and>
   t_sleep (quiet 1800000) - lastActivityMs (setup_boot 0 Map.empty) = INACTIVITY_MIN * 60 * 1000 \<and>
   sleepDecision (quiet 1800000) (setup_boot 0 Map.empty) = Awake (setup_boot 0 Map.empty) \<and>
   t_sleep (quiet 1800001) - lastActivityMs (setup_boot 0 Map.empty) = INACTIVITY_MIN * 60 * 1000 + 1 \<and>
   sleepDecision (quiet 1800001) (setup_boot 0 Map.empty) =
     Asleep (goToDeepSleep (drawDashboard (setup_boot 0 Map.empty)))"
proof -
  have b: "\<not> bleEnabled (setup_boot 0 Map.empty)"
    and l: "lastActivityMs (setup_boot 0 Map.empty) = 0"
    by (simp_all add: setup_boot_def drawDashboard_def)
  have t: "t_sleep (quiet 1799999) = 1799999" "t_sleep (quiet 1800000) = 1800000"
    "t_sleep (quiet 1800001) = 1800001"
    by (simp_all add: quiet_def)
  show ?thesis
    using b sleep_boundary [OF b, of "quiet 1799999"] sleep_boundary [OF b, of "quiet 1800000"]
      sleep_boundary [OF b, of "quiet 1800001"]
    by (simp add: l t INACTIVITY_MIN_def)
qed

theorem sleep_at_threshold_counterexample:
  "\<not> bleEnabled (setup_boot 0 Map.empty) \<and>
   t_sleep (quiet 1800000) - lastActivityMs (setup_boot 0 Map.empty) = INACTIVITY_MIN * 60 * 1000 \<and>
   sleepDecision (quiet 1800000) (setup_boot 0 Map.empty) = Awake (setup_boot 0 Map.empty) \<and>
   loop (quiet 1800000) (setup_boot 0 Map.empty) =
     Awake (beforeSleep (quiet 1800000) (setup_boot 0 Map.empty))"
  by (simp add: loop_def beforeSleep_def sleepDecision_def setup_boot_def quiet_def
      INACTIVITY_MIN_def BLE_ENABLE_TIMEOUT_MS_def draw_defs decodeEncoder_def pageChange_def
      buttonStep_def bleTimeout_def autoAdjustLight_def batteryRefresh_def Let_def)

text \<open>
  Claim C5 (the wireless channel prevents sleep). With the channel enabled the sleep
  decision keeps the device awake whatever the idle duration is, and an iteration of the
  loop that reaches its sleep decision with the channel enabled does not sleep.
\<close>

theorem ble_prevents_sleep:
  "(bleEnabled st \<longrightarrow> sleepDecision inp st = Awake st) \<and>
   (bleEnabled (beforeSleep inp st) \<longrightarrow> loop inp st = Awake (beforeSleep inp st))"
  by (simp add: sleepDecision_def loop_def)


theorem ble_prevents_sleep_witness:
  "bleEnabled ((setup_boot 0 Map.empty)\<lparr>bleEnabled := True, bleEnableTs := 4000000000\<rparr>) \<and>
   t_sleep (quiet 4000000010)
     - lastActivityMs ((setup_boot 0 Map.empty)\<lparr>bleEnabled := True, bleEnableTs := 4000000000\<rparr>)
     = 4000000010 \<and>
   sleepDecision (quiet 4000000010)
       ((setup_boot 0 Map.empty)\<lparr>bleEnabled := True, bleEnableTs := 4000000000\<rparr>)
     = Awake ((setup_boot 0 Map.empty)\<lparr>bleEnabled := True, bleEnableTs := 4000000000\<rparr>) \<and>
   bleEnabled (beforeSleep (quiet 4000000010)
       ((setup_boot 0 Map.empty)\<lparr>bleEnabled := True, bleEnableTs := 4000000000\<rparr>)) \<and>
   loop (quiet 4000000010)
       ((setup_boot 0 Map.empty)\<lparr>bleEnabled := True, bleEnableTs := 4000000000\<rparr>)
     = Awake (beforeSleep (quiet 4000000010)
         ((setup_boot 0 Map.empty)\<lparr>bleEnabled := True, bleEnableTs := 4000000000\<rparr>))"
proof -
  let ?st = "(setup_boot 0 Map.empty)\<lparr>bleEnabled := True, bleEnableTs := 4000000000\<rparr>"
  have a: "bleEnabled ?st" by simp
  have b: "bleEnabled (beforeSleep (quiet 4000000010) ?st)"
    by (simp add: beforeSleep_def setup_boot_def quiet_def BLE_ENABLE_TIMEOUT_MS_def
        draw_defs decodeEncoder_def pageChange_def buttonStep_def bleTimeout_def
        autoAdjustLight_def batteryRefresh_def Let_def)
  have c: "t_sleep (quiet 4000000010) - lastActivityMs ?st = 4000000010"
    by (simp add: quiet_def setup_boot_def drawDashboard_def)
  show ?thesis
    using a b c ble_prevents_sleep [of ?st "quiet 4000000010"] by simp
qed


section \<open>The push button\<close>

lemma button_run_Cons: "button_run (i # inps) st = button_run inps (buttonStep i st)"
  by (simp add: button_run_def)

lemma button_run_snoc: "button_run (inps @ [i]) st = buttonStep i (button_run inps st)"
  by (simp add: button_run_def)

lemma button_run_held:
  "btnDown st \<Longrightarrow> \<forall>h \<in> set holds. pinBtn h = LOW \<Longrightarrow> button_run holds st = st"
proof (induction holds)
  case Nil
  then show ?case by (simp add: button_run_def)
next
  case (Cons h holds)
  then have "buttonStep h st = st"
    by (simp add: buttonStep_def)
  with Cons show ?case
    by (simp add: button_run_Cons)
qed

lemma buttonStep_no_edge:
  "pinBtn inp = LOW \<and> btnDown st \<or> pinBtn inp = HIGH \<and> \<not> btnDown st \<Longrightarrow>
   buttonStep inp st = st"
  by (erule disjE) (simp_all add: buttonStep_def)

lemma bleEnabled_shortPress: "bleEnabled (shortPress st) = bleEnabled st"
  by (simp add: shortPress_def Let_def draw_defs)

lemma bleEnabled_longPress: "bleEnabled (longPress inp st) = (\<not> bleEnabled st)"
  by (simp add: longPress_def bleStart_def bleStop_def draw_defs)

text \<open>
  Claim C8 (button press classification). On the release edge (pin high while the button
  was down) the held duration \<^verbatim>\<open>millis() - btnDownTs\<close> decides: below 800 ms the
  short-press branch runs, at 800 ms or more the long-press branch runs. The press edge only
  records the press and its time, and an iteration without an edge changes nothing. So a
  full cycle of a press, any number of iterations with the button held and a release runs
  exactly one of the two branches, chosen by the time between press and release. The two
  branches are told apart by the wireless channel: a long press toggles it, a short press
  leaves it alone.
\<close>

theorem button_classification:
  "(pinBtn inp = HIGH \<and> btnDown st \<longrightarrow>
      (t_held inp - btnDownTs st < 800 \<longrightarrow>
         buttonStep inp st = shortPress (st\<lparr>btnDown := False, lastActivityMs := t_release inp\<rparr>)) \<and>
      (800 \<le> t_held inp - btnDownTs st \<longrightarrow>
         buttonStep inp st = longPress inp (st\<lparr>btnDown := False, lastActivityMs := t_release inp\<rparr>))) \<and>
   (pinBtn inp = LOW \<and> \<not> btnDown st \<longrightarrow>
      buttonStep inp st = st\<lparr>btnDown := True, btnDownTs := t_down inp\<rparr>) \<and>
   (pinBtn inp = LOW \<and> btnDown st \<or> pinBtn inp = HIGH \<and> \<not> btnDown st \<longrightarrow>
      buttonStep inp st = st) \<and>
   (\<not> btnDown st \<and> pinBtn press = LOW \<and> (\<forall>h \<in> set holds. pinBtn h = LOW) \<and> pinBtn rel = HIGH \<longrightarrow>
      button_run (press # holds @ [rel]) st =
        (if t_held rel - t_down press < 800
         then shortPress (st\<lparr>btnDownTs := t_down press, btnDown := False,
                              lastActivityMs := t_release rel\<rparr>)
         else longPress rel (st\<lparr>btnDownTs := t_down press, btnDown := False,
                                 lastActivityMs := t_release rel\<rparr>))) \<and>
   bleEnabled (shortPress st) = bleEnabled st \<and>
   bleEnabled (longPress inp st) = (\<not> bleEnabled st)"
proof (intro conjI impI)
  assume h: "\<not> btnDown st \<and> pinBtn press = LOW \<and> (\<forall>h \<in> set holds. pinBtn h = LOW) \<and>
    pinBtn rel = HIGH"
  let ?down = "st\<lparr>btnDown := True, btnDownTs := t_down press\<rparr>"
  from h have "buttonStep press st = ?down"
    by (simp add: buttonStep_def)
  moreover from h have "button_run holds ?down = ?down"
    by (simp add: button_run_held)
  ultimately have "button_run (press # holds @ [rel]) st = buttonStep rel ?down"
    by (simp add: button_run_Cons button_run_snoc)
  with h show "button_run (press # holds @ [rel]) st =
        (if t_held rel - t_down press < 800
         then shortPress (st\<lparr>btnDownTs := t_down press, btnDown := False,
                              lastActivityMs := t_release rel\<rparr>)
         else longPress rel (st\<lparr>btnDownTs := t_down press, btnDown := False,
                                 lastActivityMs := t_release rel\<rparr>))"
    by (simp add: buttonStep_def Let_def)
next
  assume "pinBtn inp = LOW \<and> btnDown st \<or> pinBtn inp = HIGH \<and> \<not> btnDown st"
  then show "buttonStep inp st = st"
    by (rule buttonStep_no_edge)
qed (simp_all add: buttonStep_def Let_def bleEnabled_shortPress bleEnabled_longPress)


theorem button_classification_witness:
  "\<not> btnDown (setup_boot 0 Map.empty) \<and>
   pinBtn ((quiet 1000)\<lparr>pinBtn := LOW\<rparr>) = LOW \<and>
   pinBtn (quiet 1799) = HIGH \<and>
   t_held (quiet 1799) - t_down ((quiet 1000)\<lparr>pinBtn := LOW\<rparr>) = 799 \<and>
   t_held (quiet 1800) - t_down ((quiet 1000)\<lparr>pinBtn := LOW\<rparr>) = 800 \<and>
   t_held (quiet 1801) - t_down ((quiet 1000)\<lparr>pinBtn := LOW\<rparr>) = 801 \<and>
   button_run [(quiet 1000)\<lparr>pinBtn := LOW\<rparr>, (quiet 1400)\<lparr>pinBtn := LOW\<rparr>, quiet 1799]
       (setup_boot 0 Map.empty)
     = shortPress ((setup_boot 0 Map.empty)\<lparr>btnDownTs := 1000, btnDown := False,
                                               lastActivityMs := 1799\<rparr>) \<and>
   button_run [(quiet 1000)\<lparr>pinBtn := LOW\<rparr>, (quiet 1400)\<lparr>pinBtn := LOW\<rparr>, quiet 1800]
       (setup_boot 0 Map.empty)
     = longPress (quiet 1800) ((setup_boot 0 Map.empty)\<lparr>btnDownTs := 1000, btnDown := False,
                                               lastActivityMs := 1800\<rparr>) \<and>
   button_run [(quiet 1000)\<lparr>pinBtn := LOW\<rparr>, (quiet 1400)\<lparr>pinBtn := LOW\<rparr>, quiet 1801]
       (setup_boot 0 Map.empty)
     = longPress (quiet 1801) ((setup_boot 0 Map.empty)\<lparr>btnDownTs := 1000, btnDown := False,
                                               lastActivityMs := 1801\<rparr>) \<and>
   buttonStep (quiet 1799) ((setup_boot 0 Map.empty)\<lparr>btnDownTs := 1000, btnDown := True\<rparr>)
     = shortPress ((setup_boot 0 Map.empty)\<lparr>btnDownTs := 1000, btnDown := False,
                                               lastActivityMs := 1799\<rparr>) \<and>
   buttonStep (quiet 1800) ((setup_boot 0 Map.empty)\<lparr>btnDownTs := 1000, btnDown := True\<rparr>)
     = longPress (quiet 1800) ((setup_boot 0 Map.empty)\<lparr>btnDownTs := 1000, btnDown := False,
                                               lastActivityMs := 1800\<rparr>)"
proof -
  let ?st = "setup_boot 0 Map.empty"
  let ?press = "(quiet 1000)\<lparr>pinBtn := LOW\<rparr>"
  let ?hold = "(quiet 1400)\<lparr>pinBtn := LOW\<rparr>"
  let ?down = "?st\<lparr>btnDownTs := 1000, btnDown := True\<rparr>"
  have up: "\<not> btnDown ?st"
    by (simp add: setup_boot_def drawDashboard_def)
  have q: "pinBtn ?press = LOW" "pinBtn ?hold = LOW" "t_down ?press = 1000"
    "\<And>t. pinBtn (quiet t) = HIGH" "\<And>t. t_held (quiet t) = t" "\<And>t. t_release (quiet t) = t"
    by (simp_all add: quiet_def)
  have d: "btnDown ?down" "btnDownTs ?down = 1000"
    by simp_all
  show ?thesis
    using up q d
      button_classification [of "quiet 1799" ?down ?press "[?hold]" "quiet 1799"]
      button_classification [of "quiet 1800" ?down ?press "[?hold]" "quiet 1800"]
      button_classification [of "quiet 1799" ?st ?press "[?hold]" "quiet 1799"]
      button_classification [of "quiet 1800" ?st ?press "[?hold]" "quiet 1800"]
      button_classification [of "quiet 1801" ?st ?press "[?hold]" "quiet 1801"]
    by simp
qed


section \<open>The rotary encoder and navigation\<close>

lemma feed_Cons:
  "feed inp (ab # pairs) st =
     feed inp pairs (decodeEncoder (inp\<lparr>pinA := fst ab, pinB := snd ab\<rparr>) (encoderISR st))"
  by (simp add: feed_def)

lemma feed_Nil: "feed inp [] st = st"
  by (simp add: feed_def)

lemma decode_after_isr:
  "decodeEncoder (inp\<lparr>pinA := a, pinB := b\<rparr>) (encoderISR st) =
     (if a \<noteq> lastA st \<or> b \<noteq> lastB st
      then st\<lparr>encoderPos := (if a = b then encoderPos st + 1 else encoderPos st - 1),
              encoderMoved := False, lastActivityMs := t_enc inp, lastA := a, lastB := b\<rparr>
      else st\<lparr>encoderMoved := False\<rparr>)"
  by (simp add: decodeEncoder_def encoderISR_def Let_def)

lemma feed_first_pair:
  "lastA (feed inp [ab] st) = fst ab" "lastB (feed inp [ab] st) = snd ab"
  by (simp_all add: feed_Cons feed_Nil decode_after_isr)

lemma feed_from_low:
  assumes "lastA s = LOW" "lastB s = LOW"
  shows "encoderPos (feed inp [(HIGH, LOW)] s) = encoderPos s - 1"
    and "encoderPos (feed inp [(HIGH, LOW), (HIGH, HIGH)] s) = encoderPos s"
    and "encoderPos (feed inp [(HIGH, LOW), (HIGH, HIGH), (LOW, HIGH)] s) = encoderPos s - 1"
    and "encoderPos (feed inp [(HIGH, LOW), (HIGH, HIGH), (LOW, HIGH), (LOW, LOW)] s) = encoderPos s"
    and "encoderPos (feed inp [(LOW, HIGH), (HIGH, HIGH), (HIGH, LOW), (LOW, LOW)] s) = encoderPos s"
  using assms by (simp_all add: feed_Cons feed_Nil decode_after_isr)

lemma feed_split:
  "feed inp (ab # cd # pairs) st = feed inp (cd # pairs) (feed inp [ab] st)"
  by (simp add: feed_def)

text \<open>
  Claim C6 (quadrature decode magnitude) on the code. After the pair \<open>(0,0)\<close> has been
  sampled, the four transitions \<open>(1,0)\<close>, \<open>(1,1)\<close>, \<open>(0,1)\<close>, \<open>(0,0)\<close> of a full
  cycle leave the position where it was: the decoder adds one when the two lines are equal
  after a change and subtracts one when they differ, whichever line changed, so the steps
  are -1, +1, -1, +1. The cycle in the opposite direction gives the same. The net delta is
  0, neither +4 nor -4.
\<close>

theorem quadrature_cycle_net_zero:
  "encoderPos (feed inp [(LOW, LOW), (HIGH, LOW), (HIGH, HIGH), (LOW, HIGH), (LOW, LOW)] st) =
     encoderPos (feed inp [(LOW, LOW)] st) \<and>
   encoderPos (feed inp [(LOW, LOW), (LOW, HIGH), (HIGH, HIGH), (HIGH, LOW), (LOW, LOW)] st) =
     encoderPos (feed inp [(LOW, LOW)] st) \<and>
   encoderPos (feed inp [(LOW, LOW), (HIGH, LOW)] st) = encoderPos (feed inp [(LOW, LOW)] st) - 1 \<and>
   encoderPos (feed inp [(LOW, LOW), (HIGH, LOW), (HIGH, HIGH)] st) =
     encoderPos (feed inp [(LOW, LOW)] st) \<and>
   encoderPos (feed inp [(LOW, LOW), (HIGH, LOW), (HIGH, HIGH), (LOW, HIGH)] st) =
     encoderPos (feed inp [(LOW, LOW)] st) - 1"
proof -
  let ?s = "feed inp [(LOW, LOW)] st"
  have "lastA ?s = LOW" "lastB ?s = LOW"
    by (simp_all add: feed_first_pair)
  then show ?thesis
    by (simp add: feed_split [of inp "(LOW, LOW)"] feed_from_low)
qed

theorem quadrature_cycle_net_zero_witness:
  "encoderPos (feed (quiet 0) [(LOW, LOW)] (setup_boot 0 Map.empty)) = 1 \<and>
   encoderPos (feed (quiet 0) [(LOW, LOW), (HIGH, LOW), (HIGH, HIGH), (LOW, HIGH), (LOW, LOW)]
     (setup_boot 0 Map.empty)) = 1 \<and>
   encoderPos (feed (quiet 0) [(LOW, LOW), (LOW, HIGH), (HIGH, HIGH), (HIGH, LOW), (LOW, LOW)]
     (setup_boot 0 Map.empty)) = 1"
proof -
  have "encoderPos (feed (quiet 0) [(LOW, LOW)] (setup_boot 0 Map.empty)) = 1"
    by (simp add: feed_Cons feed_Nil decode_after_isr setup_boot_def drawDashboard_def)
  then show ?thesis
    using quadrature_cycle_net_zero [of "quiet 0" "setup_boot 0 Map.empty"] by simp
qed


subsection \<open>Signed 32-bit positions\<close>

lemma sint_succ:
  fixes e :: "32 word"
  shows "sint e < 2147483647 \<Longrightarrow> sint (e + 1) = sint e + 1"
  using sint_ge [of e] by (simp add: sint_word_ariths signed_take_bit_int_eq_self)

lemma sint_pred:
  fixes e :: "32 word"
  shows "- 2147483648 < sint e \<Longrightarrow> sint (e - 1) = sint e - 1"
  using sint_lt [of e] by (simp add: sint_word_ariths signed_take_bit_int_eq_self)

lemma sint_max:
  fixes e :: "32 word"
  shows "sint e = 2147483647 \<Longrightarrow> e = 2147483647"
  by (rule signed_word_eqI) simp

lemma page_of_Suc:
  "int (Suc n mod 4) = (if int (n mod 4) = 3 then 0 else int (n mod 4) + 1)"
  by (simp add: mod_Suc)

subsection \<open>The navigation invariant\<close>

lemma nav_inv_fields:
  "lastEncoderPos st' = lastEncoderPos st \<Longrightarrow> encoderPos st' = encoderPos st \<Longrightarrow>
   currentPage st' = currentPage st \<Longrightarrow> nav_inv st' = nav_inv st"
  by (simp add: nav_inv_def)

lemma nav_inv_boot: "nav_inv (setup_boot now p)"
  by (simp add: nav_inv_def setup_boot_def drawDashboard_def NUM_PAGES_def)

lemma nav_inv_isr: "nav_inv (encoderISR st) = nav_inv st"
  by (rule nav_inv_fields) (simp_all add: encoderISR_def)

lemma nav_inv_onWrite: "nav_inv (onWrite now s st) = nav_inv st"
  by (rule nav_inv_fields) (simp_all add: onWrite_def Let_def draw_defs)

lemma page_cases: "0 \<le> (p::int) \<Longrightarrow> p < 4 \<Longrightarrow> p = 0 \<or> p = 1 \<or> p = 2 \<or> p = 3"
  by arith

lemma page_forward:
  "0 \<le> (p::int) \<Longrightarrow> p < 4 \<Longrightarrow> (p + 1) smod 4 = (if p = 3 then 0 else p + 1)"
  using page_cases [of p] by (auto simp: smod_int_alt_def)

lemma page_backward:
  "0 \<le> (p::int) \<Longrightarrow> p < 4 \<Longrightarrow> (3 + p) smod 4 = (if p = 0 then 3 else p - 1)"
  using page_cases [of p] by (auto simp: smod_int_alt_def)

lemma currentPage_redrawPage [simp]: "currentPage (redrawPage st) = currentPage st"
  and encoderPos_redrawPage [simp]: "encoderPos (redrawPage st) = encoderPos st"
  and lastEncoderPos_redrawPage [simp]: "lastEncoderPos (redrawPage st) = lastEncoderPos st"
  by (simp_all add: redrawPage_def draw_defs)

lemma encoderPos_pageChange [simp]: "encoderPos (pageChange st) = encoderPos st"
  by (simp add: pageChange_def Let_def)

lemma lastEncoderPos_pageChange [simp]: "lastEncoderPos (pageChange st) = encoderPos st"
  by (simp add: pageChange_def Let_def)

lemma currentPage_pageChange:
  "0 \<le> currentPage st \<Longrightarrow> currentPage st < 4 \<Longrightarrow>
   currentPage (pageChange st) =
     (if encoderPos st = lastEncoderPos st then currentPage st
      else if sint (encoderPos st) > sint (lastEncoderPos st)
        then (if currentPage st = 3 then 0 else currentPage st + 1)
        else (if currentPage st = 0 then 3 else currentPage st - 1))"
  by (simp add: pageChange_def Let_def NUM_PAGES_def page_forward page_backward)

lemma decodeEncoder_fields [simp]:
  "currentPage (decodeEncoder inp st) = currentPage st"
  "lastEncoderPos (decodeEncoder inp st) = lastEncoderPos st"
  by (simp_all add: decodeEncoder_def Let_def)

lemma encoderPos_decodeEncoder:
  "encoderPos (decodeEncoder inp st) = encoderPos st + 1 \<or>
   encoderPos (decodeEncoder inp st) = encoderPos st - 1 \<or>
   encoderPos (decodeEncoder inp st) = encoderPos st"
  by (simp add: decodeEncoder_def Let_def)


lemma nav_step:
  assumes "nav_inv st"
  shows "nav_inv (pageChange (decodeEncoder inp st))"
    and "currentPage (pageChange (decodeEncoder inp st)) =
      (if encoderPos (decodeEncoder inp st) = encoderPos st then currentPage st
       else if sint (encoderPos (decodeEncoder inp st)) > sint (encoderPos st)
         then (if currentPage st = 3 then 0 else currentPage st + 1)
         else (if currentPage st = 0 then 3 else currentPage st - 1))"
proof -
  from assms have p: "0 \<le> currentPage st" "currentPage st < 4"
    and e: "lastEncoderPos st = encoderPos st"
    by (simp_all add: nav_inv_def NUM_PAGES_def)
  from p e show "currentPage (pageChange (decodeEncoder inp st)) =
      (if encoderPos (decodeEncoder inp st) = encoderPos st then currentPage st
       else if sint (encoderPos (decodeEncoder inp st)) > sint (encoderPos st)
         then (if currentPage st = 3 then 0 else currentPage st + 1)
         else (if currentPage st = 0 then 3 else currentPage st - 1))"
    by (simp add: currentPage_pageChange)
  with p show "nav_inv (pageChange (decodeEncoder inp st))"
    by (simp add: nav_inv_def NUM_PAGES_def)
qed

lemma nav_inv_shortPress: "nav_inv st \<Longrightarrow> nav_inv (shortPress st)"
  by (simp add: nav_inv_def shortPress_def Let_def draw_defs NUM_PAGES_def)

lemma nav_inv_bleStart: "nav_inv (bleStart t st) = nav_inv st"
  by (rule nav_inv_fields) (simp_all add: bleStart_def draw_defs)

lemma nav_inv_bleStop: "nav_inv (bleStop st) = nav_inv st"
  by (rule nav_inv_fields) (simp_all add: bleStop_def draw_defs)

lemma nav_inv_longPress: "nav_inv st \<Longrightarrow> nav_inv (longPress inp st)"
proof -
  have "nav_inv ((bleStart (t_bleStart inp) st)\<lparr>lastActivityMs := t_bleOn inp\<rparr>) =
      nav_inv (bleStart (t_bleStart inp) st)"
    by (rule nav_inv_fields) simp_all
  then show "nav_inv st \<Longrightarrow> nav_inv (longPress inp st)"
    by (simp add: longPress_def nav_inv_bleStart nav_inv_bleStop)
qed

lemma nav_inv_buttonStep: "nav_inv st \<Longrightarrow> nav_inv (buttonStep inp st)"
proof -
  assume inv: "nav_inv st"
  have a: "nav_inv (st\<lparr>btnDown := True, btnDownTs := t_down inp\<rparr>) = nav_inv st"
    by (rule nav_inv_fields) simp_all
  have "nav_inv (st\<lparr>btnDown := False, lastActivityMs := t_release inp\<rparr>) = nav_inv st"
    by (rule nav_inv_fields) simp_all
  with inv have b: "nav_inv (shortPress (st\<lparr>btnDown := False, lastActivityMs := t_release inp\<rparr>))"
    "nav_inv (longPress inp (st\<lparr>btnDown := False, lastActivityMs := t_release inp\<rparr>))"
    by (simp_all add: nav_inv_shortPress nav_inv_longPress)
  from inv a b show ?thesis
    by (simp add: buttonStep_def Let_def)
qed

lemma nav_inv_bleTimeout: "nav_inv (bleTimeout inp st) = nav_inv st"
  by (simp add: bleTimeout_def nav_inv_bleStop)

lemma nav_inv_autoAdjustLight: "nav_inv (autoAdjustLight inp st) = nav_inv st"
  by (rule nav_inv_fields) (simp_all add: autoAdjustLight_def)

lemma nav_inv_batteryRefresh: "nav_inv (batteryRefresh inp st) = nav_inv st"
  by (rule nav_inv_fields) (simp_all add: batteryRefresh_def Let_def draw_defs)

lemma nav_inv_beforeSleep: "nav_inv st \<Longrightarrow> nav_inv (beforeSleep inp st)"
  by (simp add: beforeSleep_def nav_inv_batteryRefresh nav_inv_autoAdjustLight
      nav_inv_bleTimeout nav_inv_buttonStep nav_step(1))

lemma loop_Awake: "loop inp st = Awake st' \<Longrightarrow> st' = beforeSleep inp st"
  by (simp add: loop_def sleepDecision_def Let_def split: if_splits)

lemma reachable_nav_inv: "reachable st \<Longrightarrow> nav_inv st"
proof (induction rule: reachable.induct)
  case (at_boot now p)
  show ?case by (rule nav_inv_boot)
next
  case (after_isr st)
  then show ?case by (simp add: nav_inv_isr)
next
  case (after_write st now s)
  then show ?case by (simp add: nav_inv_onWrite)
next
  case (after_loop st inp st')
  then show ?case by (auto dest: loop_Awake simp: nav_inv_beforeSleep)
qed


lemma navigate_Nil: "navigate inp [] st = st"
  by (simp add: navigate_def)

lemma navigate_Cons:
  "navigate inp (ab # pairs) st =
     navigate inp pairs
       (pageChange (decodeEncoder (inp\<lparr>pinA := fst ab, pinB := snd ab\<rparr>) (encoderISR st)))"
  by (simp add: navigate_def)

lemma encoderISR_fields [simp]:
  "encoderPos (encoderISR st) = encoderPos st"
  "currentPage (encoderISR st) = currentPage st"
  "lastEncoderPos (encoderISR st) = lastEncoderPos st"
  "lastA (encoderISR st) = lastA st"
  "lastB (encoderISR st) = lastB st"
  by (simp_all add: encoderISR_def)

lemma pageChange_lines [simp]:
  "lastA (pageChange st) = lastA st" "lastB (pageChange st) = lastB st"
  by (simp_all add: pageChange_def redrawPage_def Let_def draw_defs)



subsection \<open>One navigation step and runs of them\<close>

lemma step_mod_arith:
  fixes cp d e :: int
  assumes "0 \<le> cp" "cp < 4" "d = e + 1 \<or> d = e - 1 \<or> d = e"
  shows "(if d = e then cp
          else if d > e then (if cp = 3 then 0 else cp + 1)
          else (if cp = 0 then 3 else cp - 1)) = (cp + (d - e)) mod 4"
proof -
  from assms(1,2) have "cp = 0 \<or> cp = 1 \<or> cp = 2 \<or> cp = 3"
    by (rule page_cases)
  with assms(3) show ?thesis
    by (elim disjE) simp_all
qed

lemma step_cases_word:
  fixes cp cp' f b :: int and d e :: "32 word"
  assumes "cp' = (if d = e then cp else if sint d > sint e then f else b)"
  shows "(sint e < sint d \<longrightarrow> cp' = f) \<and> (sint d < sint e \<longrightarrow> cp' = b) \<and> (d = e \<longrightarrow> cp' = cp) \<and>
    (d = e + 1 \<and> sint e < 2147483647 \<longrightarrow> cp' = f) \<and>
    (d = e - 1 \<and> - 2147483648 < sint e \<longrightarrow> cp' = b)"
  by (auto simp: assms sint_succ sint_pred)

lemma sint_step:
  fixes d e :: "32 word"
  assumes "d = e + 1 \<or> d = e - 1 \<or> d = e"
    and "- 2147483648 < sint e" "sint e < 2147483647"
  shows "sint d = sint e + 1 \<or> sint d = sint e - 1 \<or> sint d = sint e"
  using assms by (auto simp: sint_succ sint_pred)

lemma nav_step_sint:
  assumes "nav_inv st" "- 2147483648 < sint (encoderPos st)" "sint (encoderPos st) < 2147483647"
  shows "currentPage (pageChange (decodeEncoder inp st)) =
      (currentPage st +
        (sint (encoderPos (pageChange (decodeEncoder inp st))) - sint (encoderPos st))) mod 4"
    and "\<bar>sint (encoderPos (pageChange (decodeEncoder inp st)))\<bar> \<le> \<bar>sint (encoderPos st)\<bar> + 1"
proof -
  let ?d = "encoderPos (decodeEncoder inp st)"
  let ?e = "encoderPos st"
  from assms(1) have p: "0 \<le> currentPage st" "currentPage st < 4"
    by (simp_all add: nav_inv_def NUM_PAGES_def)
  have sd: "sint ?d = sint ?e + 1 \<or> sint ?d = sint ?e - 1 \<or> sint ?d = sint ?e"
    using encoderPos_decodeEncoder assms(2,3) by (rule sint_step)
  have eq: "(?d = ?e) = (sint ?d = sint ?e)"
    by (auto intro: signed_word_eqI)
  have "currentPage (pageChange (decodeEncoder inp st)) =
      (if sint ?d = sint ?e then currentPage st
       else if sint ?d > sint ?e
         then (if currentPage st = 3 then 0 else currentPage st + 1)
         else (if currentPage st = 0 then 3 else currentPage st - 1))"
    by (simp only: nav_step(2) [OF assms(1)] eq)
  also have "\<dots> = (currentPage st + (sint ?d - sint ?e)) mod 4"
    using p sd by (rule step_mod_arith)
  finally show "currentPage (pageChange (decodeEncoder inp st)) =
      (currentPage st +
        (sint (encoderPos (pageChange (decodeEncoder inp st))) - sint (encoderPos st))) mod 4"
    by (simp only: encoderPos_pageChange)
  from sd show "\<bar>sint (encoderPos (pageChange (decodeEncoder inp st)))\<bar> \<le> \<bar>sint (encoderPos st)\<bar> + 1"
    unfolding encoderPos_pageChange by arith
qed

lemma mod_chain:
  fixes a c1 c2 e0 e1 e2 :: int
  assumes "c1 = (a + (e1 - e0)) mod 4" and "c2 = (c1 + (e2 - e1)) mod 4"
  shows "c2 = (a + (e2 - e0)) mod 4"
proof -
  have "c2 = ((a + (e1 - e0)) + (e2 - e1)) mod 4"
    unfolding assms by (simp only: mod_add_left_eq)
  also have "(a + (e1 - e0)) + (e2 - e1) = a + (e2 - e0)"
    by simp
  finally show ?thesis .
qed

lemma navigate_page:
  "nav_inv st \<Longrightarrow> \<bar>sint (encoderPos st)\<bar> + int (length pairs) < 2147483648 \<Longrightarrow>
   nav_inv (navigate inp pairs st) \<and>
   currentPage (navigate inp pairs st) =
     (currentPage st + (sint (encoderPos (navigate inp pairs st)) - sint (encoderPos st))) mod 4"
proof (induction pairs arbitrary: st)
  case Nil
  then have "0 \<le> currentPage st" "currentPage st < 4"
    by (simp_all add: nav_inv_def NUM_PAGES_def)
  with Nil show ?case
    by (simp add: navigate_Nil)
next
  case (Cons ab pairs)
  let ?inp = "inp\<lparr>pinA := fst ab, pinB := snd ab\<rparr>"
  let ?s0 = "encoderISR st"
  let ?s1 = "pageChange (decodeEncoder ?inp ?s0)"
  let ?s2 = "navigate inp pairs ?s1"
  from Cons.prems(1) have i0: "nav_inv ?s0"
    by (simp only: nav_inv_isr)
  then have i1: "nav_inv ?s1"
    by (rule nav_step(1))
  from Cons.prems(2) have "\<bar>sint (encoderPos st)\<bar> + 1 + int (length pairs) < 2147483648"
    by simp
  then have "- 2147483648 < sint (encoderPos st)" "sint (encoderPos st) < 2147483647"
    by arith+
  then have b: "- 2147483648 < sint (encoderPos ?s0)" "sint (encoderPos ?s0) < 2147483647"
    by (simp_all only: encoderISR_fields)
  have c1: "currentPage ?s1 = (currentPage st + (sint (encoderPos ?s1) - sint (encoderPos st))) mod 4"
    using nav_step_sint(1) [OF i0 b, of ?inp] by (simp only: encoderISR_fields)
  have "\<bar>sint (encoderPos ?s1)\<bar> \<le> \<bar>sint (encoderPos st)\<bar> + 1"
    using nav_step_sint(2) [OF i0 b, of ?inp] by (simp only: encoderISR_fields)
  with \<open>\<bar>sint (encoderPos st)\<bar> + 1 + int (length pairs) < 2147483648\<close>
  have r: "\<bar>sint (encoderPos ?s1)\<bar> + int (length pairs) < 2147483648"
    by arith
  have i2: "nav_inv ?s2"
    by (rule Cons.IH [OF i1 r, THEN conjunct1])
  have c2: "currentPage ?s2 = (currentPage ?s1 + (sint (encoderPos ?s2) - sint (encoderPos ?s1))) mod 4"
    by (rule Cons.IH [OF i1 r, THEN conjunct2])
  have "currentPage ?s2 = (currentPage st + (sint (encoderPos ?s2) - sint (encoderPos st))) mod 4"
    using c1 c2 by (rule mod_chain)
  with i2 show ?case
    unfolding navigate_Cons by (rule conjI)
qed


text \<open>
  Claim C7 (navigation step mapping), as amended. In every state the device can reach,
  the position snapshot equals the position when an iteration starts, the decoding block
  moves the position by at most one tick, and the page block maps an observed change to
  exactly one page step of the cycle 0, 1, 2, 3, 0: forward when the new position is
  greater than the snapshot as a signed 32-bit value, backward when it is less, no step
  when it is equal. So an increment gives one forward step unless the position was
  2147483647, and a decrement one backward step unless it was -2147483648. Over a run of
  navigation steps too short to reach either end of the 32-bit range, the page is the
  starting page advanced cyclically by the net position change, so a change of magnitude
  \<open>k\<close> gives \<open>k\<close> page steps.
\<close>

theorem navigation_step_mapping:
  "reachable st \<Longrightarrow>
   lastEncoderPos st = encoderPos st \<and>
   currentPage st \<in> {0, 1, 2, 3} \<and>
   (encoderPos (pageChange (decodeEncoder inp st)) = encoderPos st + 1 \<or>
    encoderPos (pageChange (decodeEncoder inp st)) = encoderPos st - 1 \<or>
    encoderPos (pageChange (decodeEncoder inp st)) = encoderPos st) \<and>
   lastEncoderPos (pageChange (decodeEncoder inp st)) =
     encoderPos (pageChange (decodeEncoder inp st)) \<and>
   (sint (encoderPos st) < sint (encoderPos (pageChange (decodeEncoder inp st))) \<longrightarrow>
      currentPage (pageChange (decodeEncoder inp st)) =
        (if currentPage st = 3 then 0 else currentPage st + 1)) \<and>
   (sint (encoderPos (pageChange (decodeEncoder inp st))) < sint (encoderPos st) \<longrightarrow>
      currentPage (pageChange (decodeEncoder inp st)) =
        (if currentPage st = 0 then 3 else currentPage st - 1)) \<and>
   (encoderPos (pageChange (decodeEncoder inp st)) = encoderPos st \<longrightarrow>
      currentPage (pageChange (decodeEncoder inp st)) = currentPage st) \<and>
   (encoderPos (pageChange (decodeEncoder inp st)) = encoderPos st + 1 \<and>
    sint (encoderPos st) < 2147483647 \<longrightarrow>
      currentPage (pageChange (decodeEncoder inp st)) =
        (if currentPage st = 3 then 0 else currentPage st + 1)) \<and>
   (encoderPos (pageChange (decodeEncoder inp st)) = encoderPos st - 1 \<and>
    - 2147483648 < sint (encoderPos st) \<longrightarrow>
      currentPage (pageChange (decodeEncoder inp st)) =
        (if currentPage st = 0 then 3 else currentPage st - 1)) \<and>
   (\<bar>sint (encoderPos st)\<bar> + int (length pairs) < 2147483648 \<longrightarrow>
      currentPage (navigate inp pairs st) =
        (currentPage st + (sint (encoderPos (navigate inp pairs st)) - sint (encoderPos st))) mod 4)"
proof -
  assume "reachable st"
  then have inv: "nav_inv st"
    by (rule reachable_nav_inv)
  then have p: "currentPage st \<in> {0, 1, 2, 3}" and e: "lastEncoderPos st = encoderPos st"
    using page_cases [of "currentPage st"] by (auto simp: nav_inv_def NUM_PAGES_def)
  have n: "\<bar>sint (encoderPos st)\<bar> + int (length pairs) < 2147483648 \<longrightarrow>
      currentPage (navigate inp pairs st) =
        (currentPage st + (sint (encoderPos (navigate inp pairs st)) - sint (encoderPos st))) mod 4"
    using navigate_page [OF inv] by blast
  have c: "(sint (encoderPos st) < sint (encoderPos (pageChange (decodeEncoder inp st))) \<longrightarrow>
      currentPage (pageChange (decodeEncoder inp st)) =
        (if currentPage st = 3 then 0 else currentPage st + 1)) \<and>
   (sint (encoderPos (pageChange (decodeEncoder inp st))) < sint (encoderPos st) \<longrightarrow>
      currentPage (pageChange (decodeEncoder inp st)) =
        (if currentPage st = 0 then 3 else currentPage st - 1)) \<and>
   (encoderPos (pageChange (decodeEncoder inp st)) = encoderPos st \<longrightarrow>
      currentPage (pageChange (decodeEncoder inp st)) = currentPage st) \<and>
   (encoderPos (pageChange (decodeEncoder inp st)) = encoderPos st + 1 \<and>
    sint (encoderPos st) < 2147483647 \<longrightarrow>
      currentPage (pageChange (decodeEncoder inp st)) =
        (if currentPage st = 3 then 0 else currentPage st + 1)) \<and>
   (encoderPos (pageChange (decodeEncoder inp st)) = encoderPos st - 1 \<and>
    - 2147483648 < sint (encoderPos st) \<longrightarrow>
      currentPage (pageChange (decodeEncoder inp st)) =
        (if currentPage st = 0 then 3 else currentPage st - 1))"
    unfolding encoderPos_pageChange
    by (rule step_cases_word) (rule nav_step(2) [OF inv])
  have d: "encoderPos (pageChange (decodeEncoder inp st)) = encoderPos st + 1 \<or>
    encoderPos (pageChange (decodeEncoder inp st)) = encoderPos st - 1 \<or>
    encoderPos (pageChange (decodeEncoder inp st)) = encoderPos st"
    unfolding encoderPos_pageChange by (rule encoderPos_decodeEncoder)
  have l: "lastEncoderPos (pageChange (decodeEncoder inp st)) =
     encoderPos (pageChange (decodeEncoder inp st))"
    by simp
  from e p c d l n show ?thesis
    by blast
qed

subsection \<open>A run of forward ticks up to the end of the range\<close>

lemma pageChange_untouched [simp]:
  "btnDown (pageChange st) = btnDown st"
  "bleEnabled (pageChange st) = bleEnabled st"
  "lastRun (pageChange st) = lastRun st"
  "lastBatMs (pageChange st) = lastBatMs st"
  "lastActivityMs (pageChange st) = lastActivityMs st"
  by (simp_all add: pageChange_def redrawPage_def Let_def draw_defs)

lemma tick_decode:
  "lastA st = (if even n then HIGH else LOW) \<Longrightarrow>
   decodeEncoder (tick_inputs n) (encoderISR st) =
     st\<lparr>encoderPos := encoderPos st + 1, encoderMoved := False, lastActivityMs := 0,
        lastA := (if even n then LOW else HIGH), lastB := (if even n then LOW else HIGH)\<rparr>"
  unfolding tick_inputs_def decode_after_isr by (simp add: quiet_def)

lemma quiet_blocks:
  assumes "pinBtn inp = HIGH" "\<not> btnDown s" "\<not> bleEnabled s"
    and "t_light inp - lastRun s < 1000" "\<not> t_bat inp - lastBatMs s > 15000"
  shows "batteryRefresh inp (autoAdjustLight inp (bleTimeout inp (buttonStep inp s))) = s"
proof -
  from assms(1,2) have "buttonStep inp s = s"
    by (simp add: buttonStep_no_edge)
  moreover from assms(3) have "bleTimeout inp s = s"
    by (simp add: bleTimeout_def)
  moreover from assms(4) have "autoAdjustLight inp s = s"
    by (simp add: autoAdjustLight_def)
  moreover from assms(5) have "batteryRefresh inp s = s"
    by (simp add: batteryRefresh_def)
  ultimately show ?thesis
    by simp
qed

lemma tick_inputs_fields [simp]:
  "pinBtn (tick_inputs n) = HIGH" "t_light (tick_inputs n) = 0" "t_bat (tick_inputs n) = 0"
  "t_sleep (tick_inputs n) = 0"
  by (simp_all add: tick_inputs_def quiet_def)

lemma climb_step:
  assumes c: "climbing n st" and n: "n < 2147483647"
  shows "beforeSleep (tick_inputs n) (encoderISR st) =
      pageChange (decodeEncoder (tick_inputs n) (encoderISR st))"
    and "climbing (Suc n) (pageChange (decodeEncoder (tick_inputs n) (encoderISR st)))"
    and "loop (tick_inputs n) (encoderISR st) =
      Awake (pageChange (decodeEncoder (tick_inputs n) (encoderISR st)))"
proof -
  let ?x = "decodeEncoder (tick_inputs n) (encoderISR st)"
  let ?y = "pageChange ?x"
  from c have la: "lastA st = (if even n then HIGH else LOW)"
    and e: "sint (encoderPos st) = int n" and le: "lastEncoderPos st = encoderPos st"
    and cp: "currentPage st = int (n mod 4)"
    and q: "\<not> btnDown st" "\<not> bleEnabled st" "lastRun st = 0" "lastBatMs st = 0"
    by (simp_all add: climbing_def)
  note x = tick_decode [OF la]
  from e n have s: "sint (encoderPos st + 1) = int n + 1"
    by (simp add: sint_succ)
  have xf: "encoderPos ?x = encoderPos st + 1" "lastEncoderPos ?x = encoderPos st"
    "currentPage ?x = int (n mod 4)" "lastActivityMs ?x = 0"
    "lastA ?x = (if even n then LOW else HIGH)" "lastB ?x = (if even n then LOW else HIGH)"
    "\<not> btnDown ?x" "\<not> bleEnabled ?x" "lastRun ?x = 0" "lastBatMs ?x = 0"
    unfolding x using le cp q by simp_all
  have pg: "currentPage ?y = int (Suc n mod 4)"
    using xf(1,2,3) e s
    by (simp add: currentPage_pageChange page_of_Suc del: mod_Suc)
  show cl: "climbing (Suc n) ?y"
    unfolding climbing_def using xf pg s by simp
  then have yq: "\<not> btnDown ?y" "\<not> bleEnabled ?y" "lastRun ?y = 0" "lastBatMs ?y = 0"
    "lastActivityMs ?y = 0"
    by (simp_all add: climbing_def)
  have "batteryRefresh (tick_inputs n) (autoAdjustLight (tick_inputs n)
      (bleTimeout (tick_inputs n) (buttonStep (tick_inputs n) ?y))) = ?y"
    by (rule quiet_blocks) (simp_all add: xf)
  then show bs: "beforeSleep (tick_inputs n) (encoderISR st) = ?y"
    by (simp add: beforeSleep_def)
  show "loop (tick_inputs n) (encoderISR st) = Awake ?y"
    unfolding loop_def bs using yq
    by (simp add: sleepDecision_def INACTIVITY_MIN_def)
qed

lemma climbing_boot: "climbing 0 (setup_boot 0 Map.empty)"
  by (simp add: climbing_def setup_boot_def drawDashboard_def)

lemma climb_climbing: "n \<le> 2147483647 \<Longrightarrow> climbing n (climb n) \<and> reachable (climb n)"
proof (induction n)
  case 0
  show ?case
    by (simp add: climbing_boot reachable.at_boot)
next
  case (Suc n)
  then have c: "climbing n (climb n)" and r: "reachable (climb n)" and n: "n < 2147483647"
    by simp_all
  have eq: "climb (Suc n) = pageChange (decodeEncoder (tick_inputs n) (encoderISR (climb n)))"
    using climb_step(1) [OF c n] by simp
  have "reachable (encoderISR (climb n))"
    using r by (rule reachable.after_isr)
  then have "reachable (climb (Suc n))"
    unfolding eq using climb_step(3) [OF c n] by (rule reachable.after_loop)
  moreover have "climbing (Suc n) (climb (Suc n))"
    unfolding eq by (rule climb_step(2) [OF c n])
  ultimately show ?case
    by simp
qed


lemma wrap_step:
  assumes "climbing 2147483647 st"
  shows "encoderPos st = 2147483647" and "currentPage st = 3"
    and "encoderPos (pageChange (decodeEncoder (tick_inputs 2147483647) (encoderISR st))) =
      encoderPos st + 1"
    and "sint (encoderPos (pageChange (decodeEncoder (tick_inputs 2147483647) (encoderISR st)))) =
      - 2147483648"
    and "currentPage (pageChange (decodeEncoder (tick_inputs 2147483647) (encoderISR st))) = 2"
proof -
  let ?x = "decodeEncoder (tick_inputs 2147483647) (encoderISR st)"
  from assms have "sint (encoderPos st) = 2147483647"
    and le: "lastEncoderPos st = encoderPos st"
    and la: "lastA st = (if even (2147483647 :: nat) then HIGH else LOW)"
    by (simp_all add: climbing_def)
  then show e: "encoderPos st = 2147483647"
    by (simp add: sint_max)
  from assms show cp: "currentPage st = 3"
    by (simp add: climbing_def)
  note x = tick_decode [OF la]
  have xf: "encoderPos ?x = 2147483647 + 1" "lastEncoderPos ?x = 2147483647" "currentPage ?x = 3"
    unfolding x using e le cp by simp_all
  show "encoderPos (pageChange ?x) = encoderPos st + 1"
    using xf(1) e by simp
  show "sint (encoderPos (pageChange ?x)) = - 2147483648"
    using xf(1) by simp
  show "currentPage (pageChange ?x) = 2"
    using xf by (simp add: currentPage_pageChange)
qed

theorem navigation_wrap_counterexample:
  "reachable (encoderISR (climb 2147483647)) \<and>
   encoderPos (encoderISR (climb 2147483647)) = 2147483647 \<and>
   currentPage (encoderISR (climb 2147483647)) = 3 \<and>
   encoderPos (pageChange (decodeEncoder (tick_inputs 2147483647) (encoderISR (climb 2147483647))))
     = encoderPos (encoderISR (climb 2147483647)) + 1 \<and>
   sint (encoderPos (pageChange (decodeEncoder (tick_inputs 2147483647)
     (encoderISR (climb 2147483647))))) = - 2147483648 \<and>
   currentPage (pageChange (decodeEncoder (tick_inputs 2147483647)
     (encoderISR (climb 2147483647)))) = 2"
proof -
  have c: "climbing 2147483647 (climb 2147483647)" and r: "reachable (climb 2147483647)"
    using climb_climbing [of 2147483647] by simp_all
  from r have "reachable (encoderISR (climb 2147483647))"
    by (rule reachable.after_isr)
  with wrap_step [OF c] show ?thesis
    by (simp only: encoderISR_fields simp_thms)
qed

theorem navigation_step_mapping_witness:
  "reachable (encoderISR (setup_boot 0 Map.empty)) \<and>
   currentPage (encoderISR (setup_boot 0 Map.empty)) = 0 \<and>
   sint (encoderPos (encoderISR (setup_boot 0 Map.empty))) = 0 \<and>
   encoderPos (pageChange (decodeEncoder ((quiet 5)\<lparr>pinA := LOW, pinB := LOW\<rparr>)
       (encoderISR (setup_boot 0 Map.empty))))
     = encoderPos (encoderISR (setup_boot 0 Map.empty)) + 1 \<and>
   sint (encoderPos (pageChange (decodeEncoder ((quiet 5)\<lparr>pinA := LOW, pinB := LOW\<rparr>)
       (encoderISR (setup_boot 0 Map.empty))))) = 1 \<and>
   currentPage (pageChange (decodeEncoder ((quiet 5)\<lparr>pinA := LOW, pinB := LOW\<rparr>)
       (encoderISR (setup_boot 0 Map.empty)))) = 1 \<and>
   encoderPos (pageChange (decodeEncoder ((quiet 5)\<lparr>pinA := LOW, pinB := HIGH\<rparr>)
       (encoderISR (setup_boot 0 Map.empty))))
     = encoderPos (encoderISR (setup_boot 0 Map.empty)) - 1 \<and>
   sint (encoderPos (pageChange (decodeEncoder ((quiet 5)\<lparr>pinA := LOW, pinB := HIGH\<rparr>)
       (encoderISR (setup_boot 0 Map.empty))))) = - 1 \<and>
   currentPage (pageChange (decodeEncoder ((quiet 5)\<lparr>pinA := LOW, pinB := HIGH\<rparr>)
       (encoderISR (setup_boot 0 Map.empty)))) = 3 \<and>
   encoderPos (pageChange (decodeEncoder ((quiet 5)\<lparr>pinA := HIGH, pinB := HIGH\<rparr>)
       (encoderISR (setup_boot 0 Map.empty))))
     = encoderPos (encoderISR (setup_boot 0 Map.empty)) \<and>
   currentPage (pageChange (decodeEncoder ((quiet 5)\<lparr>pinA := HIGH, pinB := HIGH\<rparr>)
       (encoderISR (setup_boot 0 Map.empty)))) = 0 \<and>
   \<bar>sint (encoderPos (encoderISR (setup_boot 0 Map.empty)))\<bar>
     + int (length [(LOW, LOW), (HIGH, HIGH), (LOW, LOW)]) < 2147483648 \<and>
   sint (encoderPos (navigate (quiet 5) [(LOW, LOW), (HIGH, HIGH), (LOW, LOW)]
       (encoderISR (setup_boot 0 Map.empty)))) = 3 \<and>
   currentPage (navigate (quiet 5) [(LOW, LOW), (HIGH, HIGH), (LOW, LOW)]
       (encoderISR (setup_boot 0 Map.empty))) = 3"
proof -
  let ?st = "encoderISR (setup_boot 0 Map.empty)"
  let ?pairs = "[(LOW, LOW), (HIGH, HIGH), (LOW, LOW)]"
  have r: "reachable ?st"
    by (intro reachable.after_isr reachable.at_boot)
  have b: "lastA (setup_boot 0 Map.empty) = HIGH" "lastB (setup_boot 0 Map.empty) = HIGH"
    "encoderPos (setup_boot 0 Map.empty) = 0" "currentPage (setup_boot 0 Map.empty) = 0"
    by (simp_all add: setup_boot_def drawDashboard_def)
  have e: "encoderPos (pageChange (decodeEncoder ((quiet 5)\<lparr>pinA := LOW, pinB := LOW\<rparr>) ?st))
      = encoderPos ?st + 1"
    "encoderPos (pageChange (decodeEncoder ((quiet 5)\<lparr>pinA := LOW, pinB := HIGH\<rparr>) ?st))
      = encoderPos ?st - 1"
    "encoderPos (pageChange (decodeEncoder ((quiet 5)\<lparr>pinA := HIGH, pinB := HIGH\<rparr>) ?st))
      = encoderPos ?st"
    by (simp_all add: decode_after_isr b)
  have z: "encoderPos ?st = 0"
    by (simp add: b)
  have n: "encoderPos (navigate (quiet 5) ?pairs ?st) = 3"
    by (simp add: navigate_Cons navigate_Nil decode_after_isr b)
  show ?thesis
    using r b(4)
      navigation_step_mapping [OF r, of "(quiet 5)\<lparr>pinA := LOW, pinB := LOW\<rparr>" ?pairs]
      navigation_step_mapping [OF r, of "(quiet 5)\<lparr>pinA := LOW, pinB := HIGH\<rparr>" ?pairs]
      navigation_step_mapping [OF r, of "(quiet 5)\<lparr>pinA := HIGH, pinB := HIGH\<rparr>" ?pairs]
      navigation_step_mapping [OF r, of "quiet 5" ?pairs]
    unfolding e n z by simp
qed

section \<open>The command callback\<close>

lemma c_str_no_nul: "CHR 0x00 \<notin> set s \<Longrightarrow> c_str s = s"
  by (auto simp: c_str_def takeWhile_eq_all_conv)

lemma startsWith_append: "startsWith (pre @ rest) pre"
  by (simp add: startsWith_def)

lemma substring_append: "substring (length pre) (pre @ rest) = rest"
  by (simp add: substring_def)

lemma prefs_onWrite_note:
  "s \<noteq> [] \<Longrightarrow> startsWith (c_str s) ''NOTE:'' \<Longrightarrow>
   prefs (onWrite now s st) = addNote (substring 5 (c_str s)) (prefs st)"
  by (simp add: onWrite_def Let_def draw_defs)

lemma prefs_onWrite_default:
  "s \<noteq> [] \<Longrightarrow> \<not> startsWith (c_str s) ''NOTE:'' \<Longrightarrow> \<not> startsWith (c_str s) ''TIME:'' \<Longrightarrow>
   c_str s \<noteq> ''CLEAR_NOTES'' \<Longrightarrow> c_str s \<noteq> ''BLE:OFF'' \<Longrightarrow>
   prefs (onWrite now s st) = addNote (c_str s) (prefs st)"
  by (simp add: onWrite_def Let_def draw_defs)

lemma readNote_addNote_slot:
  "readNote (if loadNotesCount p \<ge> MAX_NOTES then MAX_NOTES - 1 else loadNotesCount p)
     (addNote t p) = t"
  by (simp add: readNote_addNote)

text \<open>
  Claim C3 (command interpretation), as amended. The callback interprets the text of the
  written value up to its first NUL byte, which is the whole value when it holds no NUL
  byte. For a value of non-zero length: when that text is \<^verbatim>\<open>NOTE:\<close> followed by \<open>rest\<close>,
  the note added is exactly \<open>rest\<close>, and reading the slot it was stored in returns
  \<open>rest\<close>; when that text matches none of \<^verbatim>\<open>NOTE:\<close>, \<^verbatim>\<open>TIME:\<close>, \<^verbatim>\<open>CLEAR_NOTES\<close> and
  \<^verbatim>\<open>BLE:OFF\<close>, the whole text is added as a note. A value of length zero changes nothing.
\<close>

theorem onWrite_interpretation:
  "(s \<noteq> [] \<and> c_str s = ''NOTE:'' @ rest \<longrightarrow>
      prefs (onWrite now s st) = addNote rest (prefs st) \<and>
      readNote (if loadNotesCount (prefs st) \<ge> MAX_NOTES then MAX_NOTES - 1
                else loadNotesCount (prefs st)) (prefs (onWrite now s st)) = rest) \<and>
   (s \<noteq> [] \<and> \<not> startsWith (c_str s) ''NOTE:'' \<and> \<not> startsWith (c_str s) ''TIME:'' \<and>
    c_str s \<noteq> ''CLEAR_NOTES'' \<and> c_str s \<noteq> ''BLE:OFF'' \<longrightarrow>
      prefs (onWrite now s st) = addNote (c_str s) (prefs st) \<and>
      readNote (if loadNotesCount (prefs st) \<ge> MAX_NOTES then MAX_NOTES - 1
                else loadNotesCount (prefs st)) (prefs (onWrite now s st)) = c_str s) \<and>
   onWrite now [] st = st \<and>
   (CHR 0x00 \<notin> set s \<longrightarrow> c_str s = s)"
proof (intro conjI impI)
  assume h: "s \<noteq> [] \<and> c_str s = ''NOTE:'' @ rest"
  then have "startsWith (c_str s) ''NOTE:''" "substring 5 (c_str s) = rest"
    by (simp_all add: startsWith_def substring_def)
  with h show a: "prefs (onWrite now s st) = addNote rest (prefs st)"
    by (simp add: prefs_onWrite_note)
  show "readNote (if loadNotesCount (prefs st) \<ge> MAX_NOTES then MAX_NOTES - 1
                else loadNotesCount (prefs st)) (prefs (onWrite now s st)) = rest"
    unfolding a by (rule readNote_addNote_slot)
next
  assume h: "s \<noteq> [] \<and> \<not> startsWith (c_str s) ''NOTE:'' \<and> \<not> startsWith (c_str s) ''TIME:'' \<and>
    c_str s \<noteq> ''CLEAR_NOTES'' \<and> c_str s \<noteq> ''BLE:OFF''"
  then show a: "prefs (onWrite now s st) = addNote (c_str s) (prefs st)"
    by (simp add: prefs_onWrite_default)
  show "readNote (if loadNotesCount (prefs st) \<ge> MAX_NOTES then MAX_NOTES - 1
                else loadNotesCount (prefs st)) (prefs (onWrite now s st)) = c_str s"
    unfolding a by (rule readNote_addNote_slot)
next
  show "onWrite now [] st = st"
    by (simp add: onWrite_def)
next
  assume "CHR 0x00 \<notin> set s"
  then show "c_str s = s"
    by (rule c_str_no_nul)
qed

lemma boot_prefs: "prefs (setup_boot now p) = initStorage p"
  by (simp add: setup_boot_def drawDashboard_def)

theorem onWrite_interpretation_witness:
  "c_str ''NOTE:Buy milk'' = ''NOTE:'' @ ''Buy milk'' \<and>
   CHR 0x00 \<notin> set ''NOTE:Buy milk'' \<and>
   loadNotesCount (prefs (setup_boot 0 Map.empty)) = 0 \<and>
   readNote 0 (prefs (onWrite 7 ''NOTE:Buy milk'' (setup_boot 0 Map.empty))) = ''Buy milk'' \<and>
   c_str ''Buy milk'' = ''Buy milk'' \<and>
   \<not> startsWith ''Buy milk'' ''NOTE:'' \<and> \<not> startsWith ''Buy milk'' ''TIME:'' \<and>
   readNote 0 (prefs (onWrite 7 ''Buy milk'' (setup_boot 0 Map.empty))) = ''Buy milk''"
proof -
  let ?st = "setup_boot 0 Map.empty"
  have c: "c_str ''NOTE:Buy milk'' = ''NOTE:'' @ ''Buy milk''" "c_str ''Buy milk'' = ''Buy milk''"
    "CHR 0x00 \<notin> set ''NOTE:Buy milk''"
    by (simp_all add: c_str_def)
  have n: "\<not> startsWith ''Buy milk'' ''NOTE:''" "\<not> startsWith ''Buy milk'' ''TIME:''"
    by (simp_all add: startsWith_def)
  have z: "loadNotesCount (prefs ?st) = 0"
    using empty_store_init by (simp add: boot_prefs empty_store_def)
  have h1: "''NOTE:Buy milk'' \<noteq> [] \<and> c_str ''NOTE:Buy milk'' = ''NOTE:'' @ ''Buy milk''"
    using c(1) by simp
  have h2: "''Buy milk'' \<noteq> [] \<and> \<not> startsWith (c_str ''Buy milk'') ''NOTE:'' \<and>
    \<not> startsWith (c_str ''Buy milk'') ''TIME:'' \<and>
    c_str ''Buy milk'' \<noteq> ''CLEAR_NOTES'' \<and> c_str ''Buy milk'' \<noteq> ''BLE:OFF''"
    unfolding c(2) using n by simp
  have slot: "(if loadNotesCount (prefs ?st) \<ge> MAX_NOTES then MAX_NOTES - 1
                else loadNotesCount (prefs ?st)) = 0"
    by (simp add: z MAX_NOTES_def)
  from onWrite_interpretation [of "''NOTE:Buy milk''" "''Buy milk''" 7 ?st] h1
  have "readNote 0 (prefs (onWrite 7 ''NOTE:Buy milk'' ?st)) = ''Buy milk''"
    unfolding slot by blast
  moreover from onWrite_interpretation [of "''Buy milk''" "[]" 7 ?st] h2
  have "readNote 0 (prefs (onWrite 7 ''Buy milk'' ?st)) = c_str ''Buy milk''"
    unfolding slot by blast
  ultimately show ?thesis
    using c n z by simp
qed

theorem onWrite_nul_counterexample:
  "length (''NOTE:a'' @ [CHR 0x00] @ ''b'') = 8 \<and>
   startsWith (''NOTE:a'' @ [CHR 0x00] @ ''b'') ''NOTE:'' \<and>
   substring 5 (''NOTE:a'' @ [CHR 0x00] @ ''b'') = ''a'' @ [CHR 0x00] @ ''b'' \<and>
   loadNotesCount (prefs (setup_boot 0 Map.empty)) = 0 \<and>
   loadNotesCount (prefs (onWrite 7 (''NOTE:a'' @ [CHR 0x00] @ ''b'') (setup_boot 0 Map.empty))) = 1 \<and>
   readNote 0 (prefs (onWrite 7 (''NOTE:a'' @ [CHR 0x00] @ ''b'') (setup_boot 0 Map.empty))) = ''a'' \<and>
   ''a'' \<noteq> ''a'' @ [CHR 0x00] @ ''b'' \<and>
   \<not> startsWith (''ab'' @ [CHR 0x00] @ ''cd'') ''NOTE:'' \<and>
   \<not> startsWith (''ab'' @ [CHR 0x00] @ ''cd'') ''TIME:'' \<and>
   loadNotesCount (prefs (onWrite 7 (''ab'' @ [CHR 0x00] @ ''cd'') (setup_boot 0 Map.empty))) = 1 \<and>
   readNote 0 (prefs (onWrite 7 (''ab'' @ [CHR 0x00] @ ''cd'') (setup_boot 0 Map.empty))) = ''ab'' \<and>
   ''ab'' \<noteq> ''ab'' @ [CHR 0x00] @ ''cd''"
proof -
  have z: "loadNotesCount (initStorage Map.empty) = 0"
    using empty_store_init by (simp add: empty_store_def)
  show ?thesis
    by (simp add: onWrite_def Let_def c_str_def z startsWith_def substring_def draw_defs
        boot_prefs count_addNote readNote_addNote MAX_NOTES_def)
qed


end
